theory Spec2Isabelle
  imports Complex_Main "HOL-Library.Word" "HOL-Library.Multiset"
begin

unbundle bit_operations_syntax

section \<open>JavaScript \<open>Map\<close>: an insertion-ordered dictionary\<close>

text \<open>
  A JavaScript \<open>Map\<close> iterates in insertion order; \<open>set\<close> on a key that is present
  replaces the value and leaves the key at its place, \<open>set\<close> on an absent key appends,
  \<open>delete\<close> removes the key. The model is an association list in iteration order
  whose keys are pairwise distinct (every operation below keeps them so).
\<close>

type_synonym ('k, 'v) js_map = "('k \<times> 'v) list"

text \<open>
  A JavaScript string is a sequence of 16-bit code units (what \<open>charCodeAt\<close> reads).
  \<open>js\<close> writes a literal of the source.
\<close>

type_synonym js_string = "16 word list"

definition js :: "string \<Rightarrow> js_string" where
  "js s = map of_char s"

primrec Map_get :: "('k, 'v) js_map \<Rightarrow> 'k \<Rightarrow> 'v option" where
  "Map_get [] k = None"
| "Map_get (p # ps) k = (if fst p = k then Some (snd p) else Map_get ps k)"

primrec Map_set :: "'k \<Rightarrow> 'v \<Rightarrow> ('k, 'v) js_map \<Rightarrow> ('k, 'v) js_map" where
  "Map_set k v [] = [(k, v)]"
| "Map_set k v (p # ps) = (if fst p = k then (k, v) # ps else p # Map_set k v ps)"

definition Map_delete :: "'k \<Rightarrow> ('k, 'v) js_map \<Rightarrow> ('k, 'v) js_map" where
  "Map_delete k m = filter (\<lambda>p. fst p \<noteq> k) m"

definition Map_has :: "('k, 'v) js_map \<Rightarrow> 'k \<Rightarrow> bool" where
  "Map_has m k = (Map_get m k \<noteq> None)"

definition Map_keys :: "('k, 'v) js_map \<Rightarrow> 'k list" where
  "Map_keys m = map fst m"

definition Map_values :: "('k, 'v) js_map \<Rightarrow> 'v list" where
  "Map_values m = map snd m"

section \<open>\<open>PredictionCache\<close> (utils/cache)\<close>

text \<open>
  \<open>CacheEntry<T>\<close> is \<open>{value, timestamp}\<close>; the class holds the \<open>Map\<close>, \<open>maxSize\<close>
  and \<open>ttlMs\<close>. \<open>Date.now()\<close> is an integer number of milliseconds; every method that
  reads the clock takes the reading as its first argument. Keys are strings. The stored
  values are response objects, so the truthiness tests \<open>!entry\<close> and \<open>if (cached)\<close>
  of the source are tests for presence.
\<close>

record 'v CacheEntry =
  entry_value :: 'v
  timestamp :: int

record 'v PredictionCache =
  cache :: "(js_string, 'v CacheEntry) js_map"
  maxSize :: int
  ttlMs :: int

definition new_PredictionCache :: "int \<Rightarrow> int \<Rightarrow> 'v PredictionCache" where
  "new_PredictionCache max_size ttl_ms = \<lparr>cache = [], maxSize = max_size, ttlMs = ttl_ms\<rparr>"

text \<open>\<open>get(key)\<close>: the result (\<open>None\<close> is \<open>undefined\<close>) and the cache afterwards.\<close>

definition cache_get ::
  "int \<Rightarrow> js_string \<Rightarrow> 'v PredictionCache \<Rightarrow> 'v option \<times> 'v PredictionCache" where
  "cache_get now key c =
     (case Map_get (cache c) key of
        None \<Rightarrow> (None, c)
      | Some entry \<Rightarrow>
          if now - timestamp entry > ttlMs c
          then (None, c\<lparr>cache := Map_delete key (cache c)\<rparr>)
          else (Some (entry_value entry),
                c\<lparr>cache := Map_set key entry (Map_delete key (cache c))\<rparr>))"

text \<open>
  \<open>set(key, value)\<close>: \<open>this.cache.keys().next().value\<close> is the first key in iteration
  order, \<open>undefined\<close> exactly when the map is empty.
\<close>

definition evict_first :: "(js_string, 'v) js_map \<Rightarrow> (js_string, 'v) js_map" where
  "evict_first m = (case m of [] \<Rightarrow> [] | p # ps \<Rightarrow> Map_delete (fst p) m)"

definition cache_set :: "int \<Rightarrow> js_string \<Rightarrow> 'v \<Rightarrow> 'v PredictionCache \<Rightarrow> 'v PredictionCache" where
  "cache_set now key v c =
     (let m = (if int (length (cache c)) \<ge> maxSize c \<and> \<not> Map_has (cache c) key
               then evict_first (cache c) else cache c)
      in c\<lparr>cache := Map_set key \<lparr>entry_value = v, timestamp = now\<rparr> m\<rparr>)"

definition cache_clear :: "'v PredictionCache \<Rightarrow> 'v PredictionCache" where
  "cache_clear c = c\<lparr>cache := []\<rparr>"

definition cache_size :: "'v PredictionCache \<Rightarrow> int" where
  "cache_size c = int (length (cache c))"

text \<open>A caller's operations on one cache, each with the clock reading it sees.\<close>

datatype 'v cache_op = Get js_string | Set js_string 'v | Clear

fun apply_op :: "'v PredictionCache \<Rightarrow> int \<times> 'v cache_op \<Rightarrow> 'v PredictionCache" where
  "apply_op c (now, Get key) = snd (cache_get now key c)"
| "apply_op c (now, Set key v) = cache_set now key v c"
| "apply_op c (now, Clear) = cache_clear c"

definition run_ops :: "'v PredictionCache \<Rightarrow> (int \<times> 'v cache_op) list \<Rightarrow> 'v PredictionCache" where
  "run_ops c ops = foldl apply_op c ops"

section \<open>Cache keys (utils/cache)\<close>

text \<open>
  \<open>hashString\<close>: \<open>hash << 5\<close> and \<open>hash & hash\<close> work on 32-bit integers, and the
  subtraction and addition between them are exact in a double, so each round is
  arithmetic modulo \<open>2 ^ 32\<close>. \<open>toString(16)\<close> of the signed result writes a minus sign
  and the digits of the magnitude.
\<close>

definition digit_char :: "nat \<Rightarrow> 16 word" where
  "digit_char d = (if d < 10 then of_nat (48 + d) else of_nat (87 + d))"

fun to_radix16 :: "nat \<Rightarrow> js_string" where
  "to_radix16 n = (if n < 16 then [digit_char n] else to_radix16 (n div 16) @ [digit_char (n mod 16)])"

fun to_radix10 :: "nat \<Rightarrow> js_string" where
  "to_radix10 n = (if n < 10 then [digit_char n] else to_radix10 (n div 10) @ [digit_char (n mod 10)])"

declare to_radix16.simps [simp del] to_radix10.simps [simp del]

definition int_toString16 :: "int \<Rightarrow> js_string" where
  "int_toString16 i = (if i < 0 then js ''-'' @ to_radix16 (nat (- i)) else to_radix16 (nat i))"

text \<open>
  A number inside a template literal; the model covers integers, in the range where
  JavaScript prints all digits (below \<open>10 ^ 21\<close> in magnitude).
\<close>

definition int_toString :: "int \<Rightarrow> js_string" where
  "int_toString i = (if i < 0 then js ''-'' @ to_radix10 (nat (- i)) else to_radix10 (nat i))"

definition hash_step :: "32 word \<Rightarrow> 16 word \<Rightarrow> 32 word" where
  "hash_step hash char = (push_bit 5 hash - hash) + ucast char"

definition hashString :: "js_string \<Rightarrow> js_string" where
  "hashString str = int_toString16 (sint (foldl hash_step 0 str))"

definition makeCacheKey :: "js_string \<Rightarrow> js_string \<Rightarrow> js_string" where
  "makeCacheKey feature prefix = feature @ js '':'' @ hashString prefix"

section \<open>The HUD client (api/hudClient)\<close>

text \<open>\<open>code.split('\n')\<close>, \<open>join('\n')\<close> and \<open>buildPrefix\<close>; line feed is code unit 10.\<close>

fun split_lines :: "js_string \<Rightarrow> js_string list" where
  "split_lines [] = [[]]"
| "split_lines (c # cs) =
     (if c = 10 then [] # split_lines cs
      else (case split_lines cs of [] \<Rightarrow> [[c]] | l # ls \<Rightarrow> (c # l) # ls))"

fun join_lines :: "js_string list \<Rightarrow> js_string" where
  "join_lines [] = []"
| "join_lines [l] = l"
| "join_lines (l # ls) = l @ [10] @ join_lines ls"

text \<open>
  \<open>cursorLine\<close> and \<open>cursorChar\<close> are editor positions, integers. \<open>substring(0, n)\<close>
  clamps \<open>n\<close> to the string, which is what \<open>take (nat n)\<close> does.
\<close>

definition buildPrefix :: "js_string list \<Rightarrow> int \<Rightarrow> int \<Rightarrow> js_string" where
  "buildPrefix lines cursorLine cursorChar =
     (let targetLine = cursorLine - 1 in
      if targetLine < 0 then []
      else if targetLine \<ge> int (length lines) then join_lines lines
      else let beforeCursor = take (nat cursorChar) (lines ! nat targetLine);
               prefixLines = take (nat targetLine) lines @ [beforeCursor]
           in join_lines prefixLines)"

text \<open>
  The backend. A call to \<open>fetch\<close> is recorded in the log of issued requests; what comes
  back is either a rejection (transport error) or a response with a status and a body,
  where the body is \<open>None\<close> when \<open>response.json()\<close> rejects.
\<close>

datatype request =
    EntropyReq js_string js_string
  | GhostReq js_string js_string
  | AutopanicReq js_string js_string
  | SaliencyReq js_string js_string int int

record 'v http_response =
  status :: nat
  body :: "'v option"

datatype 'v fetch_result = Rejected | Resolved "'v http_response"

definition response_ok :: "'v http_response \<Rightarrow> bool" where
  "response_ok r = (200 \<le> status r \<and> status r \<le> 299)"

definition backend_failed :: "'v fetch_result \<Rightarrow> bool" where
  "backend_failed res =
     (case res of Rejected \<Rightarrow> True
      | Resolved r \<Rightarrow> (if response_ok r then body r = None else True))"

text \<open>The module's state: the four caches and the log of requests issued to the backend.\<close>

record ('e, 'g, 'a, 's) hud_state =
  entropyCache :: "'e PredictionCache"
  ghostCache :: "'g PredictionCache"
  autopanicCache :: "'a PredictionCache"
  saliencyCache :: "'s PredictionCache"
  issued :: "request list"

definition initial_state :: "('e, 'g, 'a, 's) hud_state" where
  "initial_state =
     \<lparr>entropyCache = new_PredictionCache 50 1500, ghostCache = new_PredictionCache 50 1000,
      autopanicCache = new_PredictionCache 30 800, saliencyCache = new_PredictionCache 10 5000,
      issued = []\<rparr>"

text \<open>
  An \<open>async\<close> function runs to its first \<open>await\<close> and later continues from there; other
  code may run in between. Each fetch function is therefore two steps. The first step
  looks the key up and, on a miss, calls \<open>fetch\<close> and suspends holding its cache key. The
  second step runs when the backend has answered: the \<open>try\<close> body throws on a rejection,
  on a status that is not ok and on a body that does not parse, and \<open>catch\<close> turns each
  into \<open>null\<close> (\<open>None\<close>); otherwise the data is stored and returned. (Between the answer
  of \<open>fetch\<close> and that of \<open>response.json()\<close> the function touches no state, so the
  two awaits are one step here.)
\<close>

datatype 'v progress = Returned "'v option" | Awaiting js_string

definition settle ::
  "int \<Rightarrow> js_string \<Rightarrow> 'v fetch_result \<Rightarrow> 'v PredictionCache \<Rightarrow> 'v option \<times> 'v PredictionCache" where
  "settle now cacheKey res c =
     (case res of
        Rejected \<Rightarrow> (None, c)
      | Resolved response \<Rightarrow>
          if \<not> response_ok response then (None, c)
          else (case body response of
                  None \<Rightarrow> (None, c)
                | Some data \<Rightarrow> (Some data, cache_set now cacheKey data c)))"

definition fetchEntropy_begin ::
  "int \<Rightarrow> js_string \<Rightarrow> js_string \<Rightarrow> int \<Rightarrow> int \<Rightarrow> ('e, 'g, 'a, 's) hud_state
     \<Rightarrow> 'e progress \<times> ('e, 'g, 'a, 's) hud_state" where
  "fetchEntropy_begin now code uri cursorLine cursorChar s =
     (let lines = split_lines code;
          prefix = buildPrefix lines cursorLine cursorChar;
          cacheKey = makeCacheKey (js ''entropy'') prefix;
          (cached, c) = cache_get now cacheKey (entropyCache s)
      in case cached of
           Some v \<Rightarrow> (Returned (Some v), s\<lparr>entropyCache := c\<rparr>)
         | None \<Rightarrow> (Awaiting cacheKey,
                     s\<lparr>entropyCache := c, issued := issued s @ [EntropyReq prefix uri]\<rparr>))"

definition fetchEntropy_resume ::
  "int \<Rightarrow> js_string \<Rightarrow> 'e fetch_result \<Rightarrow> ('e, 'g, 'a, 's) hud_state
     \<Rightarrow> 'e option \<times> ('e, 'g, 'a, 's) hud_state" where
  "fetchEntropy_resume now cacheKey res s =
     (let (r, c) = settle now cacheKey res (entropyCache s) in (r, s\<lparr>entropyCache := c\<rparr>))"

definition fetchGhost_begin ::
  "int \<Rightarrow> js_string \<Rightarrow> js_string \<Rightarrow> int \<Rightarrow> int \<Rightarrow> ('e, 'g, 'a, 's) hud_state
     \<Rightarrow> 'g progress \<times> ('e, 'g, 'a, 's) hud_state" where
  "fetchGhost_begin now code uri cursorLine cursorChar s =
     (let lines = split_lines code;
          prefix = buildPrefix lines cursorLine cursorChar;
          cacheKey = makeCacheKey (js ''ghost'') prefix;
          (cached, c) = cache_get now cacheKey (ghostCache s)
      in case cached of
           Some v \<Rightarrow> (Returned (Some v), s\<lparr>ghostCache := c\<rparr>)
         | None \<Rightarrow> (Awaiting cacheKey,
                     s\<lparr>ghostCache := c, issued := issued s @ [GhostReq prefix uri]\<rparr>))"

definition fetchGhost_resume ::
  "int \<Rightarrow> js_string \<Rightarrow> 'g fetch_result \<Rightarrow> ('e, 'g, 'a, 's) hud_state
     \<Rightarrow> 'g option \<times> ('e, 'g, 'a, 's) hud_state" where
  "fetchGhost_resume now cacheKey res s =
     (let (r, c) = settle now cacheKey res (ghostCache s) in (r, s\<lparr>ghostCache := c\<rparr>))"

definition fetchAutopanic_begin ::
  "int \<Rightarrow> js_string \<Rightarrow> js_string \<Rightarrow> int \<Rightarrow> int \<Rightarrow> ('e, 'g, 'a, 's) hud_state
     \<Rightarrow> 'a progress \<times> ('e, 'g, 'a, 's) hud_state" where
  "fetchAutopanic_begin now code uri cursorLine cursorChar s =
     (let lines = split_lines code;
          prefix = buildPrefix lines cursorLine cursorChar;
          cacheKey = makeCacheKey (js ''autopanic'') prefix;
          (cached, c) = cache_get now cacheKey (autopanicCache s)
      in case cached of
           Some v \<Rightarrow> (Returned (Some v), s\<lparr>autopanicCache := c\<rparr>)
         | None \<Rightarrow> (Awaiting cacheKey,
                     s\<lparr>autopanicCache := c, issued := issued s @ [AutopanicReq prefix uri]\<rparr>))"

definition fetchAutopanic_resume ::
  "int \<Rightarrow> js_string \<Rightarrow> 'a fetch_result \<Rightarrow> ('e, 'g, 'a, 's) hud_state
     \<Rightarrow> 'a option \<times> ('e, 'g, 'a, 's) hud_state" where
  "fetchAutopanic_resume now cacheKey res s =
     (let (r, c) = settle now cacheKey res (autopanicCache s) in (r, s\<lparr>autopanicCache := c\<rparr>))"

definition fetchSaliency_begin ::
  "int \<Rightarrow> js_string \<Rightarrow> js_string \<Rightarrow> int \<Rightarrow> int \<Rightarrow> ('e, 'g, 'a, 's) hud_state
     \<Rightarrow> 's progress \<times> ('e, 'g, 'a, 's) hud_state" where
  "fetchSaliency_begin now code uri cursorLine cursorChar s =
     (let cacheKey = makeCacheKey (js ''saliency'')
                       (uri @ js '':'' @ int_toString cursorLine @ js '':'' @ int_toString cursorChar);
          (cached, c) = cache_get now cacheKey (saliencyCache s)
      in case cached of
           Some v \<Rightarrow> (Returned (Some v), s\<lparr>saliencyCache := c\<rparr>)
         | None \<Rightarrow> (Awaiting cacheKey,
                     s\<lparr>saliencyCache := c,
                       issued := issued s @ [SaliencyReq code uri cursorLine cursorChar]\<rparr>))"

definition fetchSaliency_resume ::
  "int \<Rightarrow> js_string \<Rightarrow> 's fetch_result \<Rightarrow> ('e, 'g, 'a, 's) hud_state
     \<Rightarrow> 's option \<times> ('e, 'g, 'a, 's) hud_state" where
  "fetchSaliency_resume now cacheKey res s =
     (let (r, c) = settle now cacheKey res (saliencyCache s) in (r, s\<lparr>saliencyCache := c\<rparr>))"

text \<open>
  A call that nothing interleaves with: the lookup at clock reading \<open>t0\<close>, then, if the
  backend was called, its answer \<open>res\<close> handled at clock reading \<open>t1\<close>.
\<close>

definition fetchEntropy ::
  "int \<Rightarrow> int \<Rightarrow> 'e fetch_result \<Rightarrow> js_string \<Rightarrow> js_string \<Rightarrow> int \<Rightarrow> int
     \<Rightarrow> ('e, 'g, 'a, 's) hud_state \<Rightarrow> 'e option \<times> ('e, 'g, 'a, 's) hud_state" where
  "fetchEntropy t0 t1 res code uri cursorLine cursorChar s =
     (case fetchEntropy_begin t0 code uri cursorLine cursorChar s of
        (Returned r, s') \<Rightarrow> (r, s')
      | (Awaiting cacheKey, s') \<Rightarrow> fetchEntropy_resume t1 cacheKey res s')"

definition fetchGhost ::
  "int \<Rightarrow> int \<Rightarrow> 'g fetch_result \<Rightarrow> js_string \<Rightarrow> js_string \<Rightarrow> int \<Rightarrow> int
     \<Rightarrow> ('e, 'g, 'a, 's) hud_state \<Rightarrow> 'g option \<times> ('e, 'g, 'a, 's) hud_state" where
  "fetchGhost t0 t1 res code uri cursorLine cursorChar s =
     (case fetchGhost_begin t0 code uri cursorLine cursorChar s of
        (Returned r, s') \<Rightarrow> (r, s')
      | (Awaiting cacheKey, s') \<Rightarrow> fetchGhost_resume t1 cacheKey res s')"

definition fetchAutopanic ::
  "int \<Rightarrow> int \<Rightarrow> 'a fetch_result \<Rightarrow> js_string \<Rightarrow> js_string \<Rightarrow> int \<Rightarrow> int
     \<Rightarrow> ('e, 'g, 'a, 's) hud_state \<Rightarrow> 'a option \<times> ('e, 'g, 'a, 's) hud_state" where
  "fetchAutopanic t0 t1 res code uri cursorLine cursorChar s =
     (case fetchAutopanic_begin t0 code uri cursorLine cursorChar s of
        (Returned r, s') \<Rightarrow> (r, s')
      | (Awaiting cacheKey, s') \<Rightarrow> fetchAutopanic_resume t1 cacheKey res s')"

definition fetchSaliency ::
  "int \<Rightarrow> int \<Rightarrow> 's fetch_result \<Rightarrow> js_string \<Rightarrow> js_string \<Rightarrow> int \<Rightarrow> int
     \<Rightarrow> ('e, 'g, 'a, 's) hud_state \<Rightarrow> 's option \<times> ('e, 'g, 'a, 's) hud_state" where
  "fetchSaliency t0 t1 res code uri cursorLine cursorChar s =
     (case fetchSaliency_begin t0 code uri cursorLine cursorChar s of
        (Returned r, s') \<Rightarrow> (r, s')
      | (Awaiting cacheKey, s') \<Rightarrow> fetchSaliency_resume t1 cacheKey res s')"

section \<open>Metrics (utils/metrics)\<close>

text \<open>
  JavaScript numbers are read as real numbers: \<open>Math.exp\<close>, \<open>Math.log\<close> and
  \<open>Math.log2\<close> are \<open>exp\<close>, \<open>ln\<close> and \<open>log 2\<close>, and arithmetic is exact. Rounding,
  overflow, infinities and \<open>NaN\<close> of IEEE doubles are outside the model; a logprob is a
  finite number.
\<close>

record TokenLogprob =
  token :: js_string
  logprob :: real

text \<open>
  \<open>Math.max(...xs)\<close> starts from \<open>-Infinity\<close>; on a list that is not empty that is the
  maximum taken from the first element on. \<open>logprobsToProbs\<close> calls it after its test
  for the empty list.
\<close>

definition logprobsToProbs :: "TokenLogprob list \<Rightarrow> (js_string, real) js_map" where
  "logprobsToProbs logprobs =
     (case logprobs of
        [] \<Rightarrow> []
      | lp # rest \<Rightarrow>
          let maxLogprob = foldl max (logprob lp) (map logprob rest);
              exps = map (\<lambda>lp. (token lp, exp (logprob lp - maxLogprob))) logprobs;
              sumExp = foldl (\<lambda>sum e. sum + snd e) 0 exps
          in foldl (\<lambda>probs e. Map_set (fst e) (snd e / sumExp) probs) [] exps)"

definition calculateEntropy :: "(js_string, real) js_map \<Rightarrow> real" where
  "calculateEntropy probs =
     foldl (\<lambda>entropy p. if p > 0 then entropy - p * log 2 p else entropy) 0 (Map_values probs)"

definition calculateEntropyFromLogprobs :: "TokenLogprob list \<Rightarrow> real" where
  "calculateEntropyFromLogprobs logprobs = calculateEntropy (logprobsToProbs logprobs)"

text \<open>\<open>x || d\<close> on the result of \<open>Map.get\<close>: \<open>d\<close> when the key is absent or the value is 0.\<close>

definition or_default :: "real option \<Rightarrow> real \<Rightarrow> real" where
  "or_default x d = (case x of None \<Rightarrow> d | Some v \<Rightarrow> if v = 0 then d else v)"

text \<open>
  \<open>[...xs].sort((a, b) => b.logprob - a.logprob)\<close>: \<open>Array.prototype.sort\<close> is stable,
  and so is insertion sort on the negated key.
\<close>

definition sort_desc :: "TokenLogprob list \<Rightarrow> TokenLogprob list" where
  "sort_desc xs = sort_key (\<lambda>a. - logprob a) xs"

definition calculateMargin :: "TokenLogprob list \<Rightarrow> real" where
  "calculateMargin topLogprobs =
     (if length topLogprobs < 2 then 1
      else let sorted = sort_desc topLogprobs;
               probs = logprobsToProbs (take 2 sorted);
               p1 = or_default (Map_get probs (token (sorted ! 0))) 0;
               p2 = or_default (Map_get probs (token (sorted ! 1))) 0
           in p1 - p2)"

definition calculateKL :: "(js_string, real) js_map \<Rightarrow> (js_string, real) js_map \<Rightarrow> real" where
  "calculateKL p q =
     foldl (\<lambda>kl e. let qVal = or_default (Map_get q (fst e)) (1 / 10 ^ 10)
                    in if snd e > 0 then kl + snd e * ln (snd e / qVal) else kl) 0 p"

definition calculateSurprisal :: "js_string \<Rightarrow> (js_string, real) js_map \<Rightarrow> real" where
  "calculateSurprisal tok probs =
     (case Map_get probs tok of
        None \<Rightarrow> 10
      | Some p \<Rightarrow> if p = 0 then 10 else - log 2 p)"

section \<open>Saliency lens (features/saliencyLens)\<close>

record SaliencyToken =
  line :: int
  character :: int
  klDivergence :: real
  tokenText :: js_string

definition MAX_DISPLAY_TOKENS :: nat where
  "MAX_DISPLAY_TOKENS = 5"

definition KL_THRESHOLD :: real where
  "KL_THRESHOLD = 0.05"

text \<open>
  The head of \<open>showSaliencyHighlights\<close>: \<open>filter\<close>, the stable \<open>sort\<close> by
  \<open>b.klDivergence - a.klDivergence\<close>, and \<open>slice(0, MAX_DISPLAY_TOKENS)\<close>.
\<close>

definition salientTokens :: "SaliencyToken list \<Rightarrow> SaliencyToken list" where
  "salientTokens tokens =
     take MAX_DISPLAY_TOKENS
       (sort_key (\<lambda>t. - klDivergence t)
          (filter (\<lambda>t. klDivergence t \<ge> KL_THRESHOLD) tokens))"

section \<open>Facts about the \<open>Map\<close> model\<close>

lemma Map_get_eq_map_of: "Map_get m k = map_of m k"
  by (induction m) auto

lemma Map_keys_set: "Map_keys (Map_set k v m) = (if k \<in> set (Map_keys m) then Map_keys m else Map_keys m @ [k])"
  by (induction m) (auto simp: Map_keys_def)

lemma length_Map_set: "length (Map_set k v m) = (if k \<in> fst ` set m then length m else Suc (length m))"
  by (induction m) auto

lemma distinct_Map_set: "distinct (map fst m) \<Longrightarrow> distinct (map fst (Map_set k v m))"
  using Map_keys_set [of k v m] by (auto simp: Map_keys_def)

lemma Map_get_Map_set: "Map_get (Map_set k v m) k' = (if k' = k then Some v else Map_get m k')"
  by (induction m) auto

lemma Map_get_None_iff: "Map_get m k = None \<longleftrightarrow> k \<notin> fst ` set m"
  by (induction m) auto

lemma Map_get_Some_mem: "Map_get m k = Some v \<Longrightarrow> (k, v) \<in> set m"
  by (induction m) (auto split: if_splits)

lemma Map_get_Map_delete: "Map_get (Map_delete k m) k' = (if k' = k then None else Map_get m k')"
  by (induction m) (auto simp: Map_delete_def)

lemma distinct_Map_delete: "distinct (map fst m) \<Longrightarrow> distinct (map fst (Map_delete k m))"
  by (simp add: Map_delete_def distinct_map_filter)

lemma keys_Map_delete: "fst ` set (Map_delete k m) = fst ` set m - {k}"
  by (auto simp: Map_delete_def)

lemma length_Map_delete_le: "length (Map_delete k m) \<le> length m"
  by (simp add: Map_delete_def)

lemma length_Map_delete_mem:
  "k \<in> fst ` set m \<Longrightarrow> length (Map_delete k m) < length m"
  by (induction m) (auto simp: Map_delete_def le_imp_less_Suc)

section \<open>The cache: capacity, expiry, eviction order\<close>

lemma length_evict_first: "m \<noteq> [] \<Longrightarrow> length (evict_first m) < length m"
  by (cases m) (simp_all add: evict_first_def Map_delete_def le_imp_less_Suc)

lemma cache_set_fields [simp]:
  "maxSize (cache_set now key v c) = maxSize c" "ttlMs (cache_set now key v c) = ttlMs c"
  by (simp_all add: cache_set_def Let_def)

lemma cache_get_fields [simp]:
  "maxSize (snd (cache_get now key c)) = maxSize c" "ttlMs (snd (cache_get now key c)) = ttlMs c"
  by (simp_all add: cache_get_def split: option.splits)

lemma cache_set_size:
  assumes "1 \<le> maxSize c" "cache_size c \<le> maxSize c"
  shows "cache_size (cache_set now key v c) \<le> maxSize c"
proof (cases "Map_has (cache c) key")
  case True
  then have "key \<in> fst ` set (cache c)" by (simp add: Map_has_def Map_get_None_iff)
  with True assms show ?thesis
    by (simp add: cache_set_def cache_size_def length_Map_set)
next
  case False
  show ?thesis
  proof (cases "int (length (cache c)) \<ge> maxSize c")
    case True
    with assms have "cache c \<noteq> []" by auto
    from length_evict_first [OF this] assms True False show ?thesis
      by (simp add: cache_set_def cache_size_def length_Map_set)
  next
    case False
    with assms show ?thesis
      by (simp add: cache_set_def cache_size_def length_Map_set)
  qed
qed

lemma cache_get_size: "cache_size (snd (cache_get now key c)) \<le> cache_size c"
proof (cases "Map_get (cache c) key")
  case None
  then show ?thesis by (simp add: cache_get_def)
next
  case (Some e)
  then have "key \<in> fst ` set (cache c)" using Map_get_None_iff [of "cache c" key] by simp
  from length_Map_delete_mem [OF this] Some show ?thesis
    by (simp add: cache_get_def cache_size_def length_Map_set keys_Map_delete)
qed

lemma apply_op_inv:
  assumes "1 \<le> maxSize c" "cache_size c \<le> maxSize c"
  shows "maxSize (apply_op c op) = maxSize c \<and> ttlMs (apply_op c op) = ttlMs c
         \<and> cache_size (apply_op c op) \<le> maxSize c"
proof (cases op)
  case (Pair now o')
  show ?thesis
  proof (cases o')
    case (Get k)
    with Pair assms cache_get_size [of now k c] show ?thesis by simp
  next
    case (Set k v)
    with Pair assms cache_set_size [of c now k v] show ?thesis by simp
  next
    case Clear
    with Pair assms show ?thesis by (simp add: cache_clear_def cache_size_def)
  qed
qed

lemma run_ops_inv:
  assumes "1 \<le> maxSize c" "cache_size c \<le> maxSize c"
  shows "maxSize (run_ops c ops) = maxSize c \<and> ttlMs (run_ops c ops) = ttlMs c
         \<and> cache_size (run_ops c ops) \<le> maxSize c"
  using assms
proof (induction ops arbitrary: c)
  case Nil
  then show ?case by (simp add: run_ops_def)
next
  case (Cons op ops)
  from apply_op_inv [OF Cons.prems, of op] Cons.prems
  have "1 \<le> maxSize (apply_op c op)" "cache_size (apply_op c op) \<le> maxSize (apply_op c op)"
    by simp_all
  from Cons.IH [OF this] apply_op_inv [OF Cons.prems, of op] show ?case
    by (simp add: run_ops_def)
qed

lemma cache_get_hit:
  "fst (cache_get now key c) = Some v \<Longrightarrow>
     \<exists>e. Map_get (cache c) key = Some e \<and> entry_value e = v \<and> now - timestamp e \<le> ttlMs c"
  by (auto simp: cache_get_def split: option.splits if_splits)

lemma cache_get_expired:
  "Map_get (cache c) key = Some e \<Longrightarrow> now - timestamp e > ttlMs c \<Longrightarrow>
     cache_get now key c = (None, c\<lparr>cache := Map_delete key (cache c)\<rparr>)"
  by (simp add: cache_get_def)

lemmas cache_eval = run_ops_def new_PredictionCache_def cache_set_def cache_get_def Map_has_def
  Map_delete_def evict_first_def cache_size_def js_def Map_keys_def

lemma apply_op_fields:
  "maxSize (apply_op c op) = maxSize c \<and> ttlMs (apply_op c op) = ttlMs c"
proof (cases op)
  case (Pair now o')
  then show ?thesis by (cases o') (simp_all add: cache_clear_def)
qed

lemma run_ops_fields:
  "maxSize (run_ops c ops) = maxSize c \<and> ttlMs (run_ops c ops) = ttlMs c"
  unfolding run_ops_def
  by (induction ops arbitrary: c) (simp_all add: apply_op_fields)

text \<open>
  C2. Take a cache constructed with \<open>(max_size, ttl)\<close> and run any sequence \<open>ops\<close> of
  \<open>get\<close>, \<open>set\<close> and \<open>clear\<close> on it, whatever the clock shows at each operation
  (every prefix of a sequence is a sequence, so what follows holds after each
  operation). If the capacity is at least 1, the cache holds no more entries than its
  capacity. A value that \<open>get\<close> returns is the value of the entry under that key,
  whose age is at most \<open>ttl\<close>; and \<open>get\<close> on an entry older than \<open>ttl\<close> returns a
  miss and leaves the key absent.
\<close>

theorem cache_bounded_and_fresh:
  assumes "c = run_ops (new_PredictionCache max_size ttl) ops"
  shows "(1 \<le> max_size \<longrightarrow> cache_size c \<le> max_size) \<and>
    (\<forall>now key v. fst (cache_get now key c) = Some v \<longrightarrow>
        (\<exists>e. Map_get (cache c) key = Some e \<and> entry_value e = v \<and> now - timestamp e \<le> ttl)) \<and>
    (\<forall>now key e. Map_get (cache c) key = Some e \<and> now - timestamp e > ttl \<longrightarrow>
        fst (cache_get now key c) = None \<and> \<not> Map_has (cache (snd (cache_get now key c))) key)"
proof -
  let ?c0 = "new_PredictionCache max_size ttl :: 'a PredictionCache"
  have size: "cache_size c \<le> max_size" if "1 \<le> max_size"
  proof -
    have "1 \<le> maxSize ?c0" "cache_size ?c0 \<le> maxSize ?c0"
      using that by (simp_all add: new_PredictionCache_def cache_size_def)
    from run_ops_inv [OF this, of ops] assms show ?thesis
      by (simp add: new_PredictionCache_def)
  qed
  have ttl: "ttlMs c = ttl"
    using run_ops_fields [of ?c0 ops] assms by (simp add: new_PredictionCache_def)
  show ?thesis
    using size ttl cache_get_hit [of _ _ c]
    by (auto simp: cache_get_expired Map_has_def Map_get_Map_delete)
qed

theorem cache_bounded_and_fresh_witness:
  "(1::int) \<le> 2 \<and>
   cache_size (run_ops (new_PredictionCache 2 1000)
      [(0, Set (js ''a'') (1::nat)), (10, Set (js ''b'') 2), (20, Get (js ''a'')), (30, Set (js ''c'') 3)]) \<le> 2 \<and>
   cache_get 500 (js ''c'') (run_ops (new_PredictionCache 2 1000)
      [(0, Set (js ''a'') (1::nat)), (10, Set (js ''b'') 2), (20, Get (js ''a'')), (30, Set (js ''c'') 3)])
     = (Some 3, \<lparr>cache = [(js ''a'', \<lparr>entry_value = 1, timestamp = 0\<rparr>), (js ''c'', \<lparr>entry_value = 3, timestamp = 30\<rparr>)],
                  maxSize = 2, ttlMs = 1000\<rparr>) \<and>
   (\<exists>e. Map_get (cache (run_ops (new_PredictionCache 2 1000)
      [(0, Set (js ''a'') (1::nat)), (10, Set (js ''b'') 2), (20, Get (js ''a'')), (30, Set (js ''c'') 3)])) (js ''c'') = Some e
      \<and> entry_value e = 3 \<and> 500 - timestamp e \<le> 1000) \<and>
   cache_get 1001 (js ''a'') (run_ops (new_PredictionCache 2 1000)
      [(0, Set (js ''a'') (1::nat)), (10, Set (js ''b'') 2), (20, Get (js ''a'')), (30, Set (js ''c'') 3)])
     = (None, \<lparr>cache = [(js ''c'', \<lparr>entry_value = 3, timestamp = 30\<rparr>)], maxSize = 2, ttlMs = 1000\<rparr>)"
  using cache_bounded_and_fresh [of "run_ops (new_PredictionCache 2 1000)
      [(0, Set (js ''a'') (1::nat)), (10, Set (js ''b'') 2), (20, Get (js ''a'')), (30, Set (js ''c'') 3)]" 2 1000
      "[(0, Set (js ''a'') (1::nat)), (10, Set (js ''b'') 2), (20, Get (js ''a'')), (30, Set (js ''c'') 3)]"]
  by (simp add: cache_eval)

text \<open>
  With capacity 0 the bound fails: \<open>set\<close> finds nothing to evict and inserts.
\<close>

theorem cache_unbounded_at_zero:
  "\<not> cache_size (run_ops (new_PredictionCache 0 1000) [(0, Set (js ''a'') (1::nat))]) \<le> 0"
  by (simp add: cache_eval)

lemma cache_set_present_keeps_order:
  "Map_has (cache c) key \<Longrightarrow> Map_keys (cache (cache_set now key v c)) = Map_keys (cache c)"
  using Map_keys_set [of key "\<lparr>entry_value = v, timestamp = now\<rparr>" "cache c"]
  by (simp add: cache_set_def Map_has_def Map_get_None_iff Map_keys_def)

lemma cache_set_absent_full_evicts_first:
  assumes "\<not> Map_has (cache c) key" and "cache_size c \<ge> maxSize c" and "cache c = p # ps"
    and "distinct (Map_keys (cache c))"
  shows "Map_keys (cache (cache_set now key v c)) = Map_keys ps @ [key]"
proof -
  have "fst p \<notin> fst ` set ps"
    using assms(3,4) by (simp add: Map_keys_def)
  then have "\<forall>q\<in>set ps. fst q \<noteq> fst p"
    by (metis imageI)
  then have "filter (\<lambda>q. fst q \<noteq> fst p) ps = ps"
    by (simp add: filter_id_conv)
  moreover have "key \<notin> fst ` set (cache c)"
    using assms(1) by (simp add: Map_has_def Map_get_None_iff)
  then have "key \<noteq> fst p" "key \<notin> fst ` set ps"
    using assms(3) by auto
  ultimately show ?thesis
    using assms(1,2,3)
    using Map_keys_set [of key "\<lparr>entry_value = v, timestamp = now\<rparr>" ps]
    by (simp add: cache_set_def cache_size_def evict_first_def Map_delete_def Map_keys_def)
qed

text \<open>
  C3. \<open>set\<close> on a key that is present writes the value and the timestamp but leaves
  the key where it is in the eviction order (\<open>Map.set\<close> does not move a key it
  replaces; \<open>get\<close> moves it by deleting first). In a cache of capacity 2, after
  \<open>set a; set b; set a\<close> the order is still \<open>a, b\<close>, and the next insertion
  \<open>set c\<close> evicts \<open>a\<close>, the key written last, and keeps \<open>b\<close>.
\<close>

theorem set_existing_key_keeps_position:
  "Map_keys (cache (run_ops (new_PredictionCache 2 1000)
      [(0, Set (js ''a'') (1::nat)), (1, Set (js ''b'') 2), (2, Set (js ''a'') 3)])) = [js ''a'', js ''b''] \<and>
   Map_keys (cache (run_ops (new_PredictionCache 2 1000)
      [(0, Set (js ''a'') (1::nat)), (1, Set (js ''b'') 2), (2, Set (js ''a'') 3), (3, Set (js ''c'') 4)]))
     = [js ''b'', js ''c'']"
  by (simp add: cache_eval)


section \<open>The client: failed calls and concurrent lookups\<close>

lemma cache_get_miss_cases:
  assumes "fst (cache_get now key c) = None"
  shows "snd (cache_get now key c) = c \<or> snd (cache_get now key c) = c\<lparr>cache := Map_delete key (cache c)\<rparr>"
    and "Map_get (cache (snd (cache_get now key c))) key = None"
  using assms
  by (auto simp: cache_get_def Map_get_Map_delete split: option.splits if_splits)

lemma cache_get_absent:
  "Map_get (cache c) key = None \<Longrightarrow> cache_get now key c = (None, c)"
  by (simp add: cache_get_def)

lemma settle_failed: "backend_failed res \<Longrightarrow> settle now key res c = (None, c)"
  by (auto simp: backend_failed_def settle_def split: fetch_result.splits if_splits)

lemma fetchEntropy_begin_Awaiting:
  assumes "fst (fetchEntropy_begin t0 code uri l ch s) = Awaiting k"
  shows "k = makeCacheKey (js ''entropy'') (buildPrefix (split_lines code) l ch)"
    and "fst (cache_get t0 k (entropyCache s)) = None"
    and "snd (fetchEntropy_begin t0 code uri l ch s) =
           s\<lparr>entropyCache := snd (cache_get t0 k (entropyCache s)),
             issued := issued s @ [EntropyReq (buildPrefix (split_lines code) l ch) uri]\<rparr>"
  using assms
  by (auto simp: fetchEntropy_begin_def Let_def split: prod.splits option.splits)

lemma fetchGhost_begin_Awaiting:
  assumes "fst (fetchGhost_begin t0 code uri l ch s) = Awaiting k"
  shows "k = makeCacheKey (js ''ghost'') (buildPrefix (split_lines code) l ch)"
    and "fst (cache_get t0 k (ghostCache s)) = None"
    and "snd (fetchGhost_begin t0 code uri l ch s) =
           s\<lparr>ghostCache := snd (cache_get t0 k (ghostCache s)),
             issued := issued s @ [GhostReq (buildPrefix (split_lines code) l ch) uri]\<rparr>"
  using assms
  by (auto simp: fetchGhost_begin_def Let_def split: prod.splits option.splits)

lemma fetchAutopanic_begin_Awaiting:
  assumes "fst (fetchAutopanic_begin t0 code uri l ch s) = Awaiting k"
  shows "k = makeCacheKey (js ''autopanic'') (buildPrefix (split_lines code) l ch)"
    and "fst (cache_get t0 k (autopanicCache s)) = None"
    and "snd (fetchAutopanic_begin t0 code uri l ch s) =
           s\<lparr>autopanicCache := snd (cache_get t0 k (autopanicCache s)),
             issued := issued s @ [AutopanicReq (buildPrefix (split_lines code) l ch) uri]\<rparr>"
  using assms
  by (auto simp: fetchAutopanic_begin_def Let_def split: prod.splits option.splits)

lemma fetchSaliency_begin_Awaiting:
  assumes "fst (fetchSaliency_begin t0 code uri l ch s) = Awaiting k"
  shows "k = makeCacheKey (js ''saliency'') (uri @ js '':'' @ int_toString l @ js '':'' @ int_toString ch)"
    and "fst (cache_get t0 k (saliencyCache s)) = None"
    and "snd (fetchSaliency_begin t0 code uri l ch s) =
           s\<lparr>saliencyCache := snd (cache_get t0 k (saliencyCache s)),
             issued := issued s @ [SaliencyReq code uri l ch]\<rparr>"
  using assms
  by (auto simp: fetchSaliency_begin_def Let_def split: prod.splits option.splits)

lemma fetchEntropy_failed:
  assumes "fst (fetchEntropy_begin t0 code uri l ch s) = Awaiting k" and "backend_failed res"
  shows "fetchEntropy t0 t1 res code uri l ch s = (None, snd (fetchEntropy_begin t0 code uri l ch s))"
proof -
  obtain s' where b: "fetchEntropy_begin t0 code uri l ch s = (Awaiting k, s')"
    using assms(1) by (cases "fetchEntropy_begin t0 code uri l ch s") simp
  show ?thesis
    by (simp add: fetchEntropy_def b fetchEntropy_resume_def settle_failed [OF assms(2)])
qed


lemma fetchGhost_failed:
  assumes "fst (fetchGhost_begin t0 code uri l ch s) = Awaiting k" and "backend_failed res"
  shows "fetchGhost t0 t1 res code uri l ch s = (None, snd (fetchGhost_begin t0 code uri l ch s))"
proof -
  obtain s' where b: "fetchGhost_begin t0 code uri l ch s = (Awaiting k, s')"
    using assms(1) by (cases "fetchGhost_begin t0 code uri l ch s") simp
  show ?thesis
    by (simp add: fetchGhost_def b fetchGhost_resume_def settle_failed [OF assms(2)])
qed

lemma fetchAutopanic_failed:
  assumes "fst (fetchAutopanic_begin t0 code uri l ch s) = Awaiting k" and "backend_failed res"
  shows "fetchAutopanic t0 t1 res code uri l ch s = (None, snd (fetchAutopanic_begin t0 code uri l ch s))"
proof -
  obtain s' where b: "fetchAutopanic_begin t0 code uri l ch s = (Awaiting k, s')"
    using assms(1) by (cases "fetchAutopanic_begin t0 code uri l ch s") simp
  show ?thesis
    by (simp add: fetchAutopanic_def b fetchAutopanic_resume_def settle_failed [OF assms(2)])
qed

lemma fetchSaliency_failed:
  assumes "fst (fetchSaliency_begin t0 code uri l ch s) = Awaiting k" and "backend_failed res"
  shows "fetchSaliency t0 t1 res code uri l ch s = (None, snd (fetchSaliency_begin t0 code uri l ch s))"
proof -
  obtain s' where b: "fetchSaliency_begin t0 code uri l ch s = (Awaiting k, s')"
    using assms(1) by (cases "fetchSaliency_begin t0 code uri l ch s") simp
  show ?thesis
    by (simp add: fetchSaliency_def b fetchSaliency_resume_def settle_failed [OF assms(2)])
qed

lemma cache_get_miss_subset:
  "fst (cache_get now key c) = None \<Longrightarrow> set (cache (snd (cache_get now key c))) \<subseteq> set (cache c)"
  using cache_get_miss_cases(1) [of now key c] by (auto simp: Map_delete_def)

lemmas key_eval = makeCacheKey_def hashString_def hash_step_def int_toString16_def int_toString_def
  digit_char_def to_radix16.simps to_radix10.simps buildPrefix_def js_def

lemmas hud_eval = fetchEntropy_def fetchEntropy_begin_def fetchEntropy_resume_def
  fetchGhost_def fetchGhost_begin_def fetchGhost_resume_def
  fetchAutopanic_def fetchAutopanic_begin_def fetchAutopanic_resume_def
  fetchSaliency_def fetchSaliency_begin_def fetchSaliency_resume_def
  settle_def backend_failed_def response_ok_def initial_state_def Let_def

text \<open>
  C4. Whenever a fetch function has called the backend (its lookup missed and it awaits
  the answer under cache key \<open>k\<close>) and the call fails (the request is rejected, the
  status is not 2xx, or the body does not parse), the function returns \<open>null\<close>, and
  the state it leaves is the one it had when it called the backend: the other three
  caches are as before, and its own cache is as the lookup left it. The failed call
  stores nothing: every entry of the cache afterwards was in it before the function
  ran, and the key looked up is absent. (The lookup itself removes an entry of
  that key that had expired.)
\<close>

theorem fetch_failure_returns_null_and_caches_nothing:
  "(fst (fetchEntropy_begin t0 code uri l ch s) = Awaiting kE \<and> backend_failed resE \<longrightarrow>
      fetchEntropy t0 t1 resE code uri l ch s =
        (None, s\<lparr>entropyCache := snd (cache_get t0 kE (entropyCache s)),
                  issued := issued s @ [EntropyReq (buildPrefix (split_lines code) l ch) uri]\<rparr>) \<and>
      set (cache (snd (cache_get t0 kE (entropyCache s)))) \<subseteq> set (cache (entropyCache s)) \<and>
      \<not> Map_has (cache (snd (cache_get t0 kE (entropyCache s)))) kE) \<and>
   (fst (fetchGhost_begin t0 code uri l ch s) = Awaiting kG \<and> backend_failed resG \<longrightarrow>
      fetchGhost t0 t1 resG code uri l ch s =
        (None, s\<lparr>ghostCache := snd (cache_get t0 kG (ghostCache s)),
                  issued := issued s @ [GhostReq (buildPrefix (split_lines code) l ch) uri]\<rparr>) \<and>
      set (cache (snd (cache_get t0 kG (ghostCache s)))) \<subseteq> set (cache (ghostCache s)) \<and>
      \<not> Map_has (cache (snd (cache_get t0 kG (ghostCache s)))) kG) \<and>
   (fst (fetchAutopanic_begin t0 code uri l ch s) = Awaiting kA \<and> backend_failed resA \<longrightarrow>
      fetchAutopanic t0 t1 resA code uri l ch s =
        (None, s\<lparr>autopanicCache := snd (cache_get t0 kA (autopanicCache s)),
                  issued := issued s @ [AutopanicReq (buildPrefix (split_lines code) l ch) uri]\<rparr>) \<and>
      set (cache (snd (cache_get t0 kA (autopanicCache s)))) \<subseteq> set (cache (autopanicCache s)) \<and>
      \<not> Map_has (cache (snd (cache_get t0 kA (autopanicCache s)))) kA) \<and>
   (fst (fetchSaliency_begin t0 code uri l ch s) = Awaiting kS \<and> backend_failed resS \<longrightarrow>
      fetchSaliency t0 t1 resS code uri l ch s =
        (None, s\<lparr>saliencyCache := snd (cache_get t0 kS (saliencyCache s)),
                  issued := issued s @ [SaliencyReq code uri l ch]\<rparr>) \<and>
      set (cache (snd (cache_get t0 kS (saliencyCache s)))) \<subseteq> set (cache (saliencyCache s)) \<and>
      \<not> Map_has (cache (snd (cache_get t0 kS (saliencyCache s)))) kS)"
proof (intro conjI impI; elim conjE)
  assume a: "fst (fetchEntropy_begin t0 code uri l ch s) = Awaiting kE" "backend_failed resE"
  show "fetchEntropy t0 t1 resE code uri l ch s =
        (None, s\<lparr>entropyCache := snd (cache_get t0 kE (entropyCache s)),
                  issued := issued s @ [EntropyReq (buildPrefix (split_lines code) l ch) uri]\<rparr>)"
    using fetchEntropy_failed [OF a] fetchEntropy_begin_Awaiting(3) [OF a(1)] by simp
  show "set (cache (snd (cache_get t0 kE (entropyCache s)))) \<subseteq> set (cache (entropyCache s))"
    using fetchEntropy_begin_Awaiting(2) [OF a(1)] by (rule cache_get_miss_subset)
  show "\<not> Map_has (cache (snd (cache_get t0 kE (entropyCache s)))) kE"
    using cache_get_miss_cases(2) [OF fetchEntropy_begin_Awaiting(2) [OF a(1)]]
    by (simp add: Map_has_def)
next
  assume a: "fst (fetchGhost_begin t0 code uri l ch s) = Awaiting kG" "backend_failed resG"
  show "fetchGhost t0 t1 resG code uri l ch s =
        (None, s\<lparr>ghostCache := snd (cache_get t0 kG (ghostCache s)),
                  issued := issued s @ [GhostReq (buildPrefix (split_lines code) l ch) uri]\<rparr>)"
    using fetchGhost_failed [OF a] fetchGhost_begin_Awaiting(3) [OF a(1)] by simp
  show "set (cache (snd (cache_get t0 kG (ghostCache s)))) \<subseteq> set (cache (ghostCache s))"
    using fetchGhost_begin_Awaiting(2) [OF a(1)] by (rule cache_get_miss_subset)
  show "\<not> Map_has (cache (snd (cache_get t0 kG (ghostCache s)))) kG"
    using cache_get_miss_cases(2) [OF fetchGhost_begin_Awaiting(2) [OF a(1)]]
    by (simp add: Map_has_def)
next
  assume a: "fst (fetchAutopanic_begin t0 code uri l ch s) = Awaiting kA" "backend_failed resA"
  show "fetchAutopanic t0 t1 resA code uri l ch s =
        (None, s\<lparr>autopanicCache := snd (cache_get t0 kA (autopanicCache s)),
                  issued := issued s @ [AutopanicReq (buildPrefix (split_lines code) l ch) uri]\<rparr>)"
    using fetchAutopanic_failed [OF a] fetchAutopanic_begin_Awaiting(3) [OF a(1)] by simp
  show "set (cache (snd (cache_get t0 kA (autopanicCache s)))) \<subseteq> set (cache (autopanicCache s))"
    using fetchAutopanic_begin_Awaiting(2) [OF a(1)] by (rule cache_get_miss_subset)
  show "\<not> Map_has (cache (snd (cache_get t0 kA (autopanicCache s)))) kA"
    using cache_get_miss_cases(2) [OF fetchAutopanic_begin_Awaiting(2) [OF a(1)]]
    by (simp add: Map_has_def)
next
  assume a: "fst (fetchSaliency_begin t0 code uri l ch s) = Awaiting kS" "backend_failed resS"
  show "fetchSaliency t0 t1 resS code uri l ch s =
        (None, s\<lparr>saliencyCache := snd (cache_get t0 kS (saliencyCache s)),
                  issued := issued s @ [SaliencyReq code uri l ch]\<rparr>)"
    using fetchSaliency_failed [OF a] fetchSaliency_begin_Awaiting(3) [OF a(1)] by simp
  show "set (cache (snd (cache_get t0 kS (saliencyCache s)))) \<subseteq> set (cache (saliencyCache s))"
    using fetchSaliency_begin_Awaiting(2) [OF a(1)] by (rule cache_get_miss_subset)
  show "\<not> Map_has (cache (snd (cache_get t0 kS (saliencyCache s)))) kS"
    using cache_get_miss_cases(2) [OF fetchSaliency_begin_Awaiting(2) [OF a(1)]]
    by (simp add: Map_has_def)
qed

theorem fetch_failure_witness:
  "fst (fetchEntropy_begin 2000 (js ''x'') (js ''u'') 1 1
         (initial_state\<lparr>entropyCache := cache_set 0 (js ''entropy:78'') (7::nat) (new_PredictionCache 50 1500)\<rparr>
            :: (nat, nat, nat, nat) hud_state))
     = Awaiting (js ''entropy:78'') \<and>
   backend_failed (Rejected :: nat fetch_result) \<and>
   fetchEntropy 2000 2001 Rejected (js ''x'') (js ''u'') 1 1
         (initial_state\<lparr>entropyCache := cache_set 0 (js ''entropy:78'') (7::nat) (new_PredictionCache 50 1500)\<rparr>
            :: (nat, nat, nat, nat) hud_state)
     = (None, initial_state\<lparr>issued := [EntropyReq (js ''x'') (js ''u'')]\<rparr>) \<and>
   fst (fetchGhost_begin 2000 (js ''x'') (js ''u'') 1 1
         (initial_state\<lparr>entropyCache := cache_set 0 (js ''entropy:78'') (7::nat) (new_PredictionCache 50 1500)\<rparr>
            :: (nat, nat, nat, nat) hud_state))
     = Awaiting (js ''ghost:78'') \<and>
   backend_failed (Resolved \<lparr>status = 500, body = Some (1::nat)\<rparr>) \<and>
   fetchGhost 2000 2001 (Resolved \<lparr>status = 500, body = Some (1::nat)\<rparr>) (js ''x'') (js ''u'') 1 1
         (initial_state\<lparr>entropyCache := cache_set 0 (js ''entropy:78'') (7::nat) (new_PredictionCache 50 1500)\<rparr>
            :: (nat, nat, nat, nat) hud_state)
     = (None, (initial_state\<lparr>entropyCache := cache_set 0 (js ''entropy:78'') (7::nat) (new_PredictionCache 50 1500)\<rparr>
            :: (nat, nat, nat, nat) hud_state)
                \<lparr>issued := [GhostReq (js ''x'') (js ''u'')]\<rparr>) \<and>
   fst (fetchAutopanic_begin 2000 (js ''x'') (js ''u'') 1 1
         (initial_state\<lparr>entropyCache := cache_set 0 (js ''entropy:78'') (7::nat) (new_PredictionCache 50 1500)\<rparr>
            :: (nat, nat, nat, nat) hud_state))
     = Awaiting (js ''autopanic:78'') \<and>
   backend_failed (Resolved \<lparr>status = 200, body = (None :: nat option)\<rparr>) \<and>
   fetchAutopanic 2000 2001 (Resolved \<lparr>status = 200, body = (None :: nat option)\<rparr>) (js ''x'') (js ''u'') 1 1
         (initial_state\<lparr>entropyCache := cache_set 0 (js ''entropy:78'') (7::nat) (new_PredictionCache 50 1500)\<rparr>
            :: (nat, nat, nat, nat) hud_state)
     = (None, (initial_state\<lparr>entropyCache := cache_set 0 (js ''entropy:78'') (7::nat) (new_PredictionCache 50 1500)\<rparr>
            :: (nat, nat, nat, nat) hud_state)
                \<lparr>issued := [AutopanicReq (js ''x'') (js ''u'')]\<rparr>) \<and>
   fst (fetchSaliency_begin 2000 (js ''x'') (js ''u'') 1 1
         (initial_state\<lparr>entropyCache := cache_set 0 (js ''entropy:78'') (7::nat) (new_PredictionCache 50 1500)\<rparr>
            :: (nat, nat, nat, nat) hud_state))
     = Awaiting (js ''saliency:68bdaa3'') \<and>
   backend_failed (Rejected :: nat fetch_result) \<and>
   fetchSaliency 2000 2001 (Rejected :: nat fetch_result) (js ''x'') (js ''u'') 1 1
         (initial_state\<lparr>entropyCache := cache_set 0 (js ''entropy:78'') (7::nat) (new_PredictionCache 50 1500)\<rparr>
            :: (nat, nat, nat, nat) hud_state)
     = (None, (initial_state\<lparr>entropyCache := cache_set 0 (js ''entropy:78'') (7::nat) (new_PredictionCache 50 1500)\<rparr>
            :: (nat, nat, nat, nat) hud_state)
                \<lparr>issued := [SaliencyReq (js ''x'') (js ''u'') 1 1]\<rparr>)"
  using fetch_failure_returns_null_and_caches_nothing
    [of 2000 "js ''x''" "js ''u''" 1 1
        "(initial_state\<lparr>entropyCache := cache_set 0 (js ''entropy:78'') (7::nat) (new_PredictionCache 50 1500)\<rparr>
            :: (nat, nat, nat, nat) hud_state)"
        "js ''entropy:78''" Rejected 2001 "js ''ghost:78''" "Resolved \<lparr>status = 500, body = Some (1::nat)\<rparr>"
        "js ''autopanic:78''" "Resolved \<lparr>status = 200, body = (None :: nat option)\<rparr>"
        "js ''saliency:68bdaa3''" Rejected]
  by (simp add: hud_eval key_eval cache_eval)

lemma cache_get_miss_twice:
  assumes "fst (cache_get t1 k c) = None"
  shows "cache_get t1 k c = (None, snd (cache_get t1 k c))"
    and "cache_get t2 k (snd (cache_get t1 k c)) = (None, snd (cache_get t1 k c))"
  using assms cache_get_miss_cases(2) [OF assms] cache_get_absent
  by (simp_all add: prod_eq_iff)

lemma fetchEntropy_begin_miss:
  assumes "k = makeCacheKey (js ''entropy'') (buildPrefix (split_lines code) l ch)"
    and "fst (cache_get t k (entropyCache s)) = None"
  shows "fetchEntropy_begin t code uri l ch s =
           (Awaiting k, s\<lparr>entropyCache := snd (cache_get t k (entropyCache s)),
                          issued := issued s @ [EntropyReq (buildPrefix (split_lines code) l ch) uri]\<rparr>)"
  using assms
  by (auto simp: fetchEntropy_begin_def Let_def split: prod.splits option.splits)

lemma fetchGhost_begin_miss:
  assumes "k = makeCacheKey (js ''ghost'') (buildPrefix (split_lines code) l ch)"
    and "fst (cache_get t k (ghostCache s)) = None"
  shows "fetchGhost_begin t code uri l ch s =
           (Awaiting k, s\<lparr>ghostCache := snd (cache_get t k (ghostCache s)),
                          issued := issued s @ [GhostReq (buildPrefix (split_lines code) l ch) uri]\<rparr>)"
  using assms
  by (auto simp: fetchGhost_begin_def Let_def split: prod.splits option.splits)

lemma fetchAutopanic_begin_miss:
  assumes "k = makeCacheKey (js ''autopanic'') (buildPrefix (split_lines code) l ch)"
    and "fst (cache_get t k (autopanicCache s)) = None"
  shows "fetchAutopanic_begin t code uri l ch s =
           (Awaiting k, s\<lparr>autopanicCache := snd (cache_get t k (autopanicCache s)),
                          issued := issued s @ [AutopanicReq (buildPrefix (split_lines code) l ch) uri]\<rparr>)"
  using assms
  by (auto simp: fetchAutopanic_begin_def Let_def split: prod.splits option.splits)

lemma fetchSaliency_begin_miss:
  assumes "k = makeCacheKey (js ''saliency'') (uri @ js '':'' @ int_toString l @ js '':'' @ int_toString ch)"
    and "fst (cache_get t k (saliencyCache s)) = None"
  shows "fetchSaliency_begin t code uri l ch s =
           (Awaiting k, s\<lparr>saliencyCache := snd (cache_get t k (saliencyCache s)),
                          issued := issued s @ [SaliencyReq code uri l ch]\<rparr>)"
  using assms
  by (auto simp: fetchSaliency_begin_def Let_def split: prod.splits option.splits)

text \<open>
  C9. If a lookup of key \<open>k\<close> misses, the function calls the backend and suspends; a
  second call for the same key that starts before the first one continues finds the
  cache without the key, whatever the clock shows, and calls the backend too: it does
  not attach to the request in flight. Two such lookups issue two requests, one each,
  for each of the four fetch functions.
\<close>

theorem concurrent_lookups_each_call_backend:
  "(kE = makeCacheKey (js ''entropy'') (buildPrefix (split_lines code) l ch) \<and>
    fst (cache_get t1 kE (entropyCache s)) = None \<longrightarrow>
      fst (fetchEntropy_begin t1 code uri l ch s) = Awaiting kE \<and>
      fst (fetchEntropy_begin t2 code uri l ch (snd (fetchEntropy_begin t1 code uri l ch s))) = Awaiting kE \<and>
      issued (snd (fetchEntropy_begin t2 code uri l ch (snd (fetchEntropy_begin t1 code uri l ch s)))) =
        issued s @ [EntropyReq (buildPrefix (split_lines code) l ch) uri,
                    EntropyReq (buildPrefix (split_lines code) l ch) uri]) \<and>
   (kG = makeCacheKey (js ''ghost'') (buildPrefix (split_lines code) l ch) \<and>
    fst (cache_get t1 kG (ghostCache s)) = None \<longrightarrow>
      fst (fetchGhost_begin t1 code uri l ch s) = Awaiting kG \<and>
      fst (fetchGhost_begin t2 code uri l ch (snd (fetchGhost_begin t1 code uri l ch s))) = Awaiting kG \<and>
      issued (snd (fetchGhost_begin t2 code uri l ch (snd (fetchGhost_begin t1 code uri l ch s)))) =
        issued s @ [GhostReq (buildPrefix (split_lines code) l ch) uri,
                    GhostReq (buildPrefix (split_lines code) l ch) uri]) \<and>
   (kA = makeCacheKey (js ''autopanic'') (buildPrefix (split_lines code) l ch) \<and>
    fst (cache_get t1 kA (autopanicCache s)) = None \<longrightarrow>
      fst (fetchAutopanic_begin t1 code uri l ch s) = Awaiting kA \<and>
      fst (fetchAutopanic_begin t2 code uri l ch (snd (fetchAutopanic_begin t1 code uri l ch s))) = Awaiting kA \<and>
      issued (snd (fetchAutopanic_begin t2 code uri l ch (snd (fetchAutopanic_begin t1 code uri l ch s)))) =
        issued s @ [AutopanicReq (buildPrefix (split_lines code) l ch) uri,
                    AutopanicReq (buildPrefix (split_lines code) l ch) uri]) \<and>
   (kS = makeCacheKey (js ''saliency'') (uri @ js '':'' @ int_toString l @ js '':'' @ int_toString ch) \<and>
    fst (cache_get t1 kS (saliencyCache s)) = None \<longrightarrow>
      fst (fetchSaliency_begin t1 code uri l ch s) = Awaiting kS \<and>
      fst (fetchSaliency_begin t2 code uri l ch (snd (fetchSaliency_begin t1 code uri l ch s))) = Awaiting kS \<and>
      issued (snd (fetchSaliency_begin t2 code uri l ch (snd (fetchSaliency_begin t1 code uri l ch s)))) =
        issued s @ [SaliencyReq code uri l ch, SaliencyReq code uri l ch])"
proof (intro conjI impI; elim conjE)
  assume k: "kE = makeCacheKey (js ''entropy'') (buildPrefix (split_lines code) l ch)"
    and m: "fst (cache_get t1 kE (entropyCache s)) = None"
  note b1 = fetchEntropy_begin_miss [OF k m]
  have "fst (cache_get t2 kE (snd (cache_get t1 kE (entropyCache s)))) = None"
    using cache_get_miss_twice(2) [OF m, of t2] by simp
  then have b2: "fetchEntropy_begin t2 code uri l ch (snd (fetchEntropy_begin t1 code uri l ch s)) =
      (Awaiting kE,
       (snd (fetchEntropy_begin t1 code uri l ch s))
         \<lparr>entropyCache := snd (cache_get t2 kE (entropyCache (snd (fetchEntropy_begin t1 code uri l ch s)))),
          issued := issued (snd (fetchEntropy_begin t1 code uri l ch s)) @ [EntropyReq (buildPrefix (split_lines code) l ch) uri]\<rparr>)"
    by (intro fetchEntropy_begin_miss [OF k]) (simp add: b1)
  show "fst (fetchEntropy_begin t1 code uri l ch s) = Awaiting kE"
    by (simp add: b1)
  show "fst (fetchEntropy_begin t2 code uri l ch (snd (fetchEntropy_begin t1 code uri l ch s))) = Awaiting kE"
    by (simp add: b2)
  show "issued (snd (fetchEntropy_begin t2 code uri l ch (snd (fetchEntropy_begin t1 code uri l ch s)))) =
        issued s @ [EntropyReq (buildPrefix (split_lines code) l ch) uri,
                    EntropyReq (buildPrefix (split_lines code) l ch) uri]"
    by (simp add: b2) (simp add: b1)
next
  assume k: "kG = makeCacheKey (js ''ghost'') (buildPrefix (split_lines code) l ch)"
    and m: "fst (cache_get t1 kG (ghostCache s)) = None"
  note b1 = fetchGhost_begin_miss [OF k m]
  have "fst (cache_get t2 kG (snd (cache_get t1 kG (ghostCache s)))) = None"
    using cache_get_miss_twice(2) [OF m, of t2] by simp
  then have b2: "fetchGhost_begin t2 code uri l ch (snd (fetchGhost_begin t1 code uri l ch s)) =
      (Awaiting kG,
       (snd (fetchGhost_begin t1 code uri l ch s))
         \<lparr>ghostCache := snd (cache_get t2 kG (ghostCache (snd (fetchGhost_begin t1 code uri l ch s)))),
          issued := issued (snd (fetchGhost_begin t1 code uri l ch s)) @ [GhostReq (buildPrefix (split_lines code) l ch) uri]\<rparr>)"
    by (intro fetchGhost_begin_miss [OF k]) (simp add: b1)
  show "fst (fetchGhost_begin t1 code uri l ch s) = Awaiting kG"
    by (simp add: b1)
  show "fst (fetchGhost_begin t2 code uri l ch (snd (fetchGhost_begin t1 code uri l ch s))) = Awaiting kG"
    by (simp add: b2)
  show "issued (snd (fetchGhost_begin t2 code uri l ch (snd (fetchGhost_begin t1 code uri l ch s)))) =
        issued s @ [GhostReq (buildPrefix (split_lines code) l ch) uri,
                    GhostReq (buildPrefix (split_lines code) l ch) uri]"
    by (simp add: b2) (simp add: b1)
next
  assume k: "kA = makeCacheKey (js ''autopanic'') (buildPrefix (split_lines code) l ch)"
    and m: "fst (cache_get t1 kA (autopanicCache s)) = None"
  note b1 = fetchAutopanic_begin_miss [OF k m]
  have "fst (cache_get t2 kA (snd (cache_get t1 kA (autopanicCache s)))) = None"
    using cache_get_miss_twice(2) [OF m, of t2] by simp
  then have b2: "fetchAutopanic_begin t2 code uri l ch (snd (fetchAutopanic_begin t1 code uri l ch s)) =
      (Awaiting kA,
       (snd (fetchAutopanic_begin t1 code uri l ch s))
         \<lparr>autopanicCache := snd (cache_get t2 kA (autopanicCache (snd (fetchAutopanic_begin t1 code uri l ch s)))),
          issued := issued (snd (fetchAutopanic_begin t1 code uri l ch s)) @ [AutopanicReq (buildPrefix (split_lines code) l ch) uri]\<rparr>)"
    by (intro fetchAutopanic_begin_miss [OF k]) (simp add: b1)
  show "fst (fetchAutopanic_begin t1 code uri l ch s) = Awaiting kA"
    by (simp add: b1)
  show "fst (fetchAutopanic_begin t2 code uri l ch (snd (fetchAutopanic_begin t1 code uri l ch s))) = Awaiting kA"
    by (simp add: b2)
  show "issued (snd (fetchAutopanic_begin t2 code uri l ch (snd (fetchAutopanic_begin t1 code uri l ch s)))) =
        issued s @ [AutopanicReq (buildPrefix (split_lines code) l ch) uri,
                    AutopanicReq (buildPrefix (split_lines code) l ch) uri]"
    by (simp add: b2) (simp add: b1)
next
  assume k: "kS = makeCacheKey (js ''saliency'') (uri @ js '':'' @ int_toString l @ js '':'' @ int_toString ch)"
    and m: "fst (cache_get t1 kS (saliencyCache s)) = None"
  note b1 = fetchSaliency_begin_miss [OF k m]
  have "fst (cache_get t2 kS (snd (cache_get t1 kS (saliencyCache s)))) = None"
    using cache_get_miss_twice(2) [OF m, of t2] by simp
  then have b2: "fetchSaliency_begin t2 code uri l ch (snd (fetchSaliency_begin t1 code uri l ch s)) =
      (Awaiting kS,
       (snd (fetchSaliency_begin t1 code uri l ch s))
         \<lparr>saliencyCache := snd (cache_get t2 kS (saliencyCache (snd (fetchSaliency_begin t1 code uri l ch s)))),
          issued := issued (snd (fetchSaliency_begin t1 code uri l ch s)) @ [SaliencyReq code uri l ch]\<rparr>)"
    by (intro fetchSaliency_begin_miss [OF k]) (simp add: b1)
  show "fst (fetchSaliency_begin t1 code uri l ch s) = Awaiting kS"
    by (simp add: b1)
  show "fst (fetchSaliency_begin t2 code uri l ch (snd (fetchSaliency_begin t1 code uri l ch s))) = Awaiting kS"
    by (simp add: b2)
  show "issued (snd (fetchSaliency_begin t2 code uri l ch (snd (fetchSaliency_begin t1 code uri l ch s)))) =
        issued s @ [SaliencyReq code uri l ch,
                    SaliencyReq code uri l ch]"
    by (simp add: b2) (simp add: b1)
qed

theorem concurrent_lookups_witness:
  "js ''entropy:78'' = makeCacheKey (js ''entropy'') (buildPrefix (split_lines (js ''x'')) 1 1) \<and>
   fst (cache_get 0 (js ''entropy:78'') (entropyCache (initial_state :: (nat, nat, nat, nat) hud_state))) = None \<and>
   fst (fetchEntropy_begin 0 (js ''x'') (js ''u'') 1 1 (initial_state :: (nat, nat, nat, nat) hud_state))
     = Awaiting (js ''entropy:78'') \<and>
   issued (snd (fetchEntropy_begin 5 (js ''x'') (js ''u'') 1 1
     (snd (fetchEntropy_begin 0 (js ''x'') (js ''u'') 1 1 (initial_state :: (nat, nat, nat, nat) hud_state)))))
     = [EntropyReq (js ''x'') (js ''u''), EntropyReq (js ''x'') (js ''u'')] \<and>
   js ''ghost:78'' = makeCacheKey (js ''ghost'') (buildPrefix (split_lines (js ''x'')) 1 1) \<and>
   fst (cache_get 0 (js ''ghost:78'') (ghostCache (initial_state :: (nat, nat, nat, nat) hud_state))) = None \<and>
   issued (snd (fetchGhost_begin 5 (js ''x'') (js ''u'') 1 1
     (snd (fetchGhost_begin 0 (js ''x'') (js ''u'') 1 1 (initial_state :: (nat, nat, nat, nat) hud_state)))))
     = [GhostReq (js ''x'') (js ''u''), GhostReq (js ''x'') (js ''u'')] \<and>
   js ''autopanic:78'' = makeCacheKey (js ''autopanic'') (buildPrefix (split_lines (js ''x'')) 1 1) \<and>
   fst (cache_get 0 (js ''autopanic:78'') (autopanicCache (initial_state :: (nat, nat, nat, nat) hud_state))) = None \<and>
   issued (snd (fetchAutopanic_begin 5 (js ''x'') (js ''u'') 1 1
     (snd (fetchAutopanic_begin 0 (js ''x'') (js ''u'') 1 1 (initial_state :: (nat, nat, nat, nat) hud_state)))))
     = [AutopanicReq (js ''x'') (js ''u''), AutopanicReq (js ''x'') (js ''u'')] \<and>
   js ''saliency:68bdaa3'' = makeCacheKey (js ''saliency'') (js ''u'' @ js '':'' @ int_toString 1 @ js '':'' @ int_toString 1) \<and>
   fst (cache_get 0 (js ''saliency:68bdaa3'') (saliencyCache (initial_state :: (nat, nat, nat, nat) hud_state))) = None \<and>
   issued (snd (fetchSaliency_begin 5 (js ''x'') (js ''u'') 1 1
     (snd (fetchSaliency_begin 0 (js ''x'') (js ''u'') 1 1 (initial_state :: (nat, nat, nat, nat) hud_state)))))
     = [SaliencyReq (js ''x'') (js ''u'') 1 1, SaliencyReq (js ''x'') (js ''u'') 1 1]"
  using concurrent_lookups_each_call_backend
    [of "js ''entropy:78''" "js ''x''" 1 1 0 "initial_state :: (nat, nat, nat, nat) hud_state" "js ''u''" 5
        "js ''ghost:78''" "js ''autopanic:78''" "js ''saliency:68bdaa3''"]
  by (simp add: hud_eval key_eval cache_eval)

text \<open>From the initial state, two overlapping \<open>fetchEntropy\<close> calls do not issue exactly one request.\<close>

theorem concurrent_lookups_two_backend_calls:
  "\<not> length (issued (snd (fetchEntropy_begin 5 (js ''x'') (js ''u'') 1 1
        (snd (fetchEntropy_begin 0 (js ''x'') (js ''u'') 1 1
           (initial_state :: (nat, nat, nat, nat) hud_state)))))) = 1"
  by (simp add: hud_eval key_eval cache_eval)


section \<open>KL divergence of a distribution with itself\<close>

lemma Map_get_distinct_mem:
  "distinct (map fst m) \<Longrightarrow> e \<in> set m \<Longrightarrow> Map_get m (fst e) = Some (snd e)"
  by (simp add: Map_get_eq_map_of)

lemma KL_fold_self:
  assumes "\<forall>e\<in>set xs. Map_get q (fst e) = Some (snd e)"
  shows "foldl (\<lambda>kl e. let qVal = or_default (Map_get q (fst e)) (1 / 10 ^ 10)
                    in if snd e > 0 then kl + snd e * ln (snd e / qVal) else kl) a xs = a"
  using assms
proof (induction xs arbitrary: a)
  case Nil
  then show ?case by simp
next
  case (Cons e xs)
  then show ?case by (simp add: or_default_def Let_def)
qed

text \<open>
  C7. For every \<open>Map\<close> \<open>P\<close> (its keys are pairwise distinct, as in any \<open>Map\<close>), and so
  for every probability distribution, \<open>calculateKL(P, P)\<close> is exactly 0, hence within
  \<open>1e-6\<close> of 0: each token with positive mass contributes \<open>p * ln (p / p) = 0\<close>, and
  the others are skipped.
\<close>

theorem calculateKL_self_zero:
  "distinct (Map_keys P) \<Longrightarrow> calculateKL P P = 0"
  unfolding calculateKL_def
  by (rule KL_fold_self) (simp add: Map_get_distinct_mem Map_keys_def)

theorem calculateKL_self_zero_witness:
  "distinct (Map_keys [(js ''a'', 9 / 10 :: real), (js ''b'', 1 / 10)]) \<and>
   calculateKL [(js ''a'', 9 / 10), (js ''b'', 1 / 10)] [(js ''a'', 9 / 10), (js ''b'', 1 / 10)] = 0"
  using calculateKL_self_zero [of "[(js ''a'', 9 / 10 :: real), (js ''b'', 1 / 10)]"]
  by (simp add: Map_keys_def js_def)

section \<open>Saliency: the tokens kept for display\<close>

lemma salient_sorted_desc:
  "sorted_wrt (\<lambda>a b. klDivergence a \<ge> klDivergence b) (sort_key (\<lambda>t. - klDivergence t) xs)"
proof -
  have "sorted (map (\<lambda>t. - klDivergence t) (sort_key (\<lambda>t. - klDivergence t) xs))"
    by (rule sorted_sort_key)
  then show ?thesis
    by (simp add: sorted_map) 
qed

text \<open>
  C8. Let \<open>q\<close> be the tokens whose KL divergence is at or above \<open>KL_THRESHOLD\<close> (the
  test is \<open>>=\<close>: a token exactly at the threshold qualifies). The tokens kept are
  \<open>min MAX_DISPLAY_TOKENS (length q)\<close> of them, in descending order of KL divergence;
  they are the top ones, in that every qualifying token left out has a KL divergence no
  larger than any token kept; and when at most \<open>MAX_DISPLAY_TOKENS\<close> qualify, the
  tokens kept are exactly the qualifying ones.
\<close>

theorem salientTokens_top_n:
  fixes tokens :: "SaliencyToken list"
  defines "q \<equiv> filter (\<lambda>t. klDivergence t \<ge> KL_THRESHOLD) tokens"
  shows "length (salientTokens tokens) = min MAX_DISPLAY_TOKENS (length q) \<and>
     sorted_wrt (\<lambda>a b. klDivergence a \<ge> klDivergence b) (salientTokens tokens) \<and>
     (\<exists>rest. mset (salientTokens tokens) + mset rest = mset q \<and>
        (\<forall>a\<in>set (salientTokens tokens). \<forall>b\<in>set rest. klDivergence a \<ge> klDivergence b)) \<and>
     (length q \<le> MAX_DISPLAY_TOKENS \<longrightarrow> mset (salientTokens tokens) = mset q)"
proof -
  let ?s = "sort_key (\<lambda>t. - klDivergence t) q"
  have r: "salientTokens tokens = take MAX_DISPLAY_TOKENS ?s"
    by (simp add: salientTokens_def q_def)
  have srt: "sorted_wrt (\<lambda>a b. klDivergence a \<ge> klDivergence b) (take MAX_DISPLAY_TOKENS ?s @ drop MAX_DISPLAY_TOKENS ?s)"
    using salient_sorted_desc [of q] by simp
  have 1: "length (salientTokens tokens) = min MAX_DISPLAY_TOKENS (length q)"
    by (simp add: r min.commute)
  have 2: "sorted_wrt (\<lambda>a b. klDivergence a \<ge> klDivergence b) (salientTokens tokens)"
    using srt unfolding sorted_wrt_append r by blast
  have "mset (take MAX_DISPLAY_TOKENS ?s) + mset (drop MAX_DISPLAY_TOKENS ?s) = mset ?s"
    by (metis append_take_drop_id mset_append)
  then have 3: "mset (salientTokens tokens) + mset (drop MAX_DISPLAY_TOKENS ?s) = mset q"
    by (simp add: r)
  have 4: "\<forall>a\<in>set (salientTokens tokens). \<forall>b\<in>set (drop MAX_DISPLAY_TOKENS ?s). klDivergence a \<ge> klDivergence b"
    using srt unfolding sorted_wrt_append r by blast
  have 5: "length q \<le> MAX_DISPLAY_TOKENS \<longrightarrow> mset (salientTokens tokens) = mset q"
    by (simp add: r)
  from 1 2 3 4 5 show ?thesis by blast
qed

theorem salientTokens_top_n_witness:
  "salientTokens
     [\<lparr>line = 1, character = 0, klDivergence = 0.05, tokenText = js ''def''\<rparr>,
      \<lparr>line = 1, character = 4, klDivergence = 0.01, tokenText = js ''add''\<rparr>,
      \<lparr>line = 2, character = 2, klDivergence = 0.9, tokenText = js ''x''\<rparr>]
   = [\<lparr>line = 2, character = 2, klDivergence = 0.9, tokenText = js ''x''\<rparr>,
      \<lparr>line = 1, character = 0, klDivergence = 0.05, tokenText = js ''def''\<rparr>] \<and>
   length (filter (\<lambda>t. klDivergence t \<ge> KL_THRESHOLD)
     [\<lparr>line = 1, character = 0, klDivergence = 0.05, tokenText = js ''def''\<rparr>,
      \<lparr>line = 1, character = 4, klDivergence = 0.01, tokenText = js ''add''\<rparr>,
      \<lparr>line = 2, character = 2, klDivergence = 0.9, tokenText = js ''x''\<rparr>]) \<le> MAX_DISPLAY_TOKENS \<and>
   mset (salientTokens
     [\<lparr>line = 1, character = 0, klDivergence = 0.05, tokenText = js ''def''\<rparr>,
      \<lparr>line = 1, character = 4, klDivergence = 0.01, tokenText = js ''add''\<rparr>,
      \<lparr>line = 2, character = 2, klDivergence = 0.9, tokenText = js ''x''\<rparr>])
   = mset (filter (\<lambda>t. klDivergence t \<ge> KL_THRESHOLD)
     [\<lparr>line = 1, character = 0, klDivergence = 0.05, tokenText = js ''def''\<rparr>,
      \<lparr>line = 1, character = 4, klDivergence = 0.01, tokenText = js ''add''\<rparr>,
      \<lparr>line = 2, character = 2, klDivergence = 0.9, tokenText = js ''x''\<rparr>])"
  using salientTokens_top_n [of
     "[\<lparr>line = 1, character = 0, klDivergence = 0.05, tokenText = js ''def''\<rparr>,
      \<lparr>line = 1, character = 4, klDivergence = 0.01, tokenText = js ''add''\<rparr>,
      \<lparr>line = 2, character = 2, klDivergence = 0.9, tokenText = js ''x''\<rparr>]"]
  by (simp add: salientTokens_def KL_THRESHOLD_def MAX_DISPLAY_TOKENS_def js_def)

text \<open>A token whose KL divergence equals the threshold is kept, although it is not above it.\<close>

theorem salientTokens_keeps_threshold:
  "salientTokens [\<lparr>line = 1, character = 0, klDivergence = 0.05, tokenText = js ''x''\<rparr>]
     = [\<lparr>line = 1, character = 0, klDivergence = 0.05, tokenText = js ''x''\<rparr>] \<and>
   \<not> klDivergence \<lparr>line = 1, character = 0, klDivergence = 0.05, tokenText = js ''x''\<rparr> > KL_THRESHOLD"
  by (simp add: salientTokens_def KL_THRESHOLD_def MAX_DISPLAY_TOKENS_def)


section \<open>The probability transform\<close>

text \<open>Building a Map by successive \<open>set\<close>: keys, lookups and the sum of the values.\<close>

lemma foldl_Map_set_append:
  "distinct (map fst (m0 @ xs)) \<Longrightarrow> foldl (\<lambda>probs e. Map_set (fst e) (snd e) probs) m0 xs = m0 @ xs"
proof (induction xs arbitrary: m0)
  case Nil
  then show ?case by simp
next
  case (Cons e xs)
  have k: "fst e \<notin> fst ` set m0" using Cons.prems by auto
  have "Map_set (fst e) (snd e) m0 = m0 @ [e]"
    using k by (induction m0) auto
  moreover have "distinct (map fst ((m0 @ [e]) @ xs))" using Cons.prems by simp
  ultimately show ?case using Cons.IH [of "m0 @ [e]"] by simp
qed

lemma Map_set_keys: "fst ` set (Map_set k v m) = insert k (fst ` set m)"
  by (induction m) auto

lemma foldl_Map_set_keys:
  "fst ` set (foldl (\<lambda>probs e. Map_set (fst e) (snd e) probs) m0 xs) = fst ` set m0 \<union> fst ` set xs"
  by (induction xs arbitrary: m0) (auto simp: Map_set_keys)

lemma foldl_Map_set_distinct:
  "distinct (map fst m0) \<Longrightarrow> distinct (map fst (foldl (\<lambda>probs e. Map_set (fst e) (snd e) probs) m0 xs))"
  by (induction xs arbitrary: m0) (auto simp: distinct_Map_set)

lemma foldl_Map_set_get_last:
  "k \<notin> fst ` set ys \<Longrightarrow>
   Map_get (foldl (\<lambda>probs e. Map_set (fst e) (snd e) probs) m0 (xs @ (k, v) # ys)) k = Some v"
proof -
  have a: "\<And>m. Map_get m k = Some v \<Longrightarrow> k \<notin> fst ` set ys \<Longrightarrow>
      Map_get (foldl (\<lambda>probs e. Map_set (fst e) (snd e) probs) m ys) k = Some v"
  proof -
    fix m show "Map_get m k = Some v \<Longrightarrow> k \<notin> fst ` set ys \<Longrightarrow>
      Map_get (foldl (\<lambda>probs e. Map_set (fst e) (snd e) probs) m ys) k = Some v"
      by (induction ys arbitrary: m) (auto simp: Map_get_Map_set)
  qed
  assume "k \<notin> fst ` set ys"
  then show ?thesis by (simp add: a Map_get_Map_set)
qed

lemma sum_Map_set_absent:
  "k \<notin> fst ` set m \<Longrightarrow> sum_list (map snd (Map_set k v m)) = sum_list (map snd m) + (v::real)"
  by (induction m) auto

lemma sum_Map_set_present:
  "k \<in> fst ` set m \<Longrightarrow> \<forall>e\<in>set m. 0 < snd e \<Longrightarrow>
   sum_list (map snd (Map_set k v m)) < sum_list (map snd m) + (v::real)"
proof (induction m)
  case Nil
  then show ?case by simp
next
  case (Cons p m)
  show ?case
  proof (cases "fst p = k")
    case True
    then show ?thesis using Cons.prems by simp
  next
    case False
    then have "k \<in> fst ` set m" using Cons.prems by auto
    from Cons.IH [OF this] Cons.prems False show ?thesis by simp
  qed
qed

lemma pos_Map_set:
  "\<forall>e\<in>set m. 0 < snd e \<Longrightarrow> 0 < (v::real) \<Longrightarrow> \<forall>e\<in>set (Map_set k v m). 0 < snd e"
  by (induction m) auto

lemma sum_foldl_Map_set_le:
  assumes "\<forall>e\<in>set m0. 0 < snd e" "\<forall>e\<in>set xs. 0 < snd e"
  shows "sum_list (map snd (foldl (\<lambda>probs e. Map_set (fst e) (snd e) probs) m0 xs))
           \<le> sum_list (map snd m0) + sum_list (map snd xs :: real list)"
  using assms
proof (induction xs arbitrary: m0)
  case Nil
  then show ?case by simp
next
  case (Cons e xs)
  have p: "\<forall>e\<in>set (Map_set (fst e) (snd e) m0). 0 < snd e"
    using Cons.prems by (intro pos_Map_set) auto
  have "sum_list (map snd (Map_set (fst e) (snd e) m0)) \<le> sum_list (map snd m0) + snd e"
    using sum_Map_set_absent [of "fst e" m0 "snd e"] sum_Map_set_present [of "fst e" m0 "snd e"] Cons.prems(1)
    by (cases "fst e \<in> fst ` set m0") auto
  moreover have "sum_list (map snd (foldl (\<lambda>probs e. Map_set (fst e) (snd e) probs) (Map_set (fst e) (snd e) m0) xs))
     \<le> sum_list (map snd (Map_set (fst e) (snd e) m0)) + sum_list (map snd xs)"
    using Cons.IH [OF p] Cons.prems(2) by simp
  ultimately show ?case by simp
qed

lemma sum_foldl_Map_set_less:
  assumes "\<forall>e\<in>set m0. 0 < snd e" "\<forall>e\<in>set xs. 0 < snd e" "distinct (map fst m0)"
    and "\<not> distinct (map fst (m0 @ xs))"
  shows "sum_list (map snd (foldl (\<lambda>probs e. Map_set (fst e) (snd e) probs) m0 xs))
           < sum_list (map snd m0) + sum_list (map snd xs :: real list)"
  using assms
proof (induction xs arbitrary: m0)
  case Nil
  then show ?case by simp
next
  case (Cons e xs)
  let ?m1 = "Map_set (fst e) (snd e) m0"
  have p: "\<forall>e\<in>set ?m1. 0 < snd e"
    using Cons.prems by (intro pos_Map_set) auto
  have le: "sum_list (map snd (foldl (\<lambda>probs e. Map_set (fst e) (snd e) probs) ?m1 xs))
     \<le> sum_list (map snd ?m1) + sum_list (map snd xs)"
    using sum_foldl_Map_set_le [OF p] Cons.prems(2) by simp
  show ?case
  proof (cases "fst e \<in> fst ` set m0")
    case True
    from sum_Map_set_present [OF True Cons.prems(1), of "snd e"] le show ?thesis by simp
  next
    case False
    then have m1: "?m1 = m0 @ [e]" by (induction m0) auto
    have "\<not> distinct (map fst (?m1 @ xs))" using Cons.prems(4) by (simp add: m1)
    moreover have "distinct (map fst ?m1)" using Cons.prems(3) by (rule distinct_Map_set)
    ultimately have "sum_list (map snd (foldl (\<lambda>probs e. Map_set (fst e) (snd e) probs) ?m1 xs))
       < sum_list (map snd ?m1) + sum_list (map snd xs)"
      using Cons.IH [OF p] Cons.prems(2) by simp
    then show ?thesis by (simp add: m1)
  qed
qed

lemma foldl_add_sum: "foldl (\<lambda>sum e. sum + f e) a xs = a + sum_list (map f xs :: real list)"
  by (induction xs arbitrary: a) simp_all

lemma sum_list_divide: "sum_list (map (\<lambda>x. f x / c) xs) = sum_list (map f xs) / (c::real)"
  by (induction xs) (simp_all add: add_divide_distrib)

lemma sum_exp_nonneg: "0 \<le> (\<Sum>lp\<leftarrow>lps. exp (logprob lp - m) :: real)"
  by (rule sum_list_nonneg) auto

lemma sum_exp_pos: "lps \<noteq> [] \<Longrightarrow> 0 < (\<Sum>lp\<leftarrow>lps. exp (logprob lp - m) :: real)"
proof (cases lps)
  case Nil
  then show "lps \<noteq> [] \<Longrightarrow> ?thesis" by simp
next
  case (Cons x rest)
  have "0 < exp (logprob x - m) + (\<Sum>lp\<leftarrow>rest. exp (logprob lp - m))"
    by (rule add_pos_nonneg [OF exp_gt_zero sum_exp_nonneg])
  then show ?thesis by (simp add: Cons)
qed

lemma exp_le_sum_exp: "a \<in> set lps \<Longrightarrow> exp (logprob a - m) \<le> (\<Sum>lp\<leftarrow>lps. exp (logprob lp - m) :: real)"
proof (induction lps)
  case Nil
  then show ?case by simp
next
  case (Cons x lps)
  show ?case
  proof (cases "a = x")
    case True
    then show ?thesis using sum_exp_nonneg [where lps = lps and m = m] by simp
  next
    case False
    then have "exp (logprob a - m) \<le> (\<Sum>lp\<leftarrow>lps. exp (logprob lp - m))"
      using Cons by simp
    moreover have "0 < exp (logprob x - m)" by (rule exp_gt_zero)
    ultimately have "exp (logprob a - m) \<le> exp (logprob x - m) + (\<Sum>lp\<leftarrow>lps. exp (logprob lp - m))"
      by linarith
    then show ?thesis by simp
  qed
qed

lemma sum_exp_shift: "(\<Sum>lp\<leftarrow>lps. exp (logprob lp - m)) = (\<Sum>lp\<leftarrow>lps. exp (logprob lp)) / exp m"
  unfolding exp_diff by (rule sum_list_divide)

lemma softmax_shift:
  "exp (l - m) / (\<Sum>lp\<leftarrow>lps. exp (logprob lp - m)) = exp l / (\<Sum>lp\<leftarrow>lps. exp (logprob lp))"
proof -
  have "exp (l - m) / (\<Sum>lp\<leftarrow>lps. exp (logprob lp - m))
          = (exp l / exp m) / ((\<Sum>lp\<leftarrow>lps. exp (logprob lp)) / exp m)"
    by (simp only: sum_exp_shift) (simp only: exp_diff)
  also have "\<dots> = exp l / (\<Sum>lp\<leftarrow>lps. exp (logprob lp))"
    by simp
  finally show ?thesis .
qed

text \<open>The distribution is the softmax of the logprobs, written to the Map entry by entry.\<close>

lemma logprobsToProbs_softmax:
  "logprobsToProbs lps =
     foldl (\<lambda>probs e. Map_set (fst e) (snd e) probs) []
       (map (\<lambda>a. (token a, exp (logprob a) / (\<Sum>lp\<leftarrow>lps. exp (logprob lp)))) lps)"
proof (cases lps)
  case Nil
  then show ?thesis by (simp add: logprobsToProbs_def)
next
  case (Cons x rest)
  define m where "m = foldl max (logprob x) (map logprob rest)"
  have s: "foldl (\<lambda>sum e. sum + snd e) 0 (map (\<lambda>lp. (token lp, exp (logprob lp - m))) lps)
             = (\<Sum>lp\<leftarrow>lps. exp (logprob lp - m))"
    by (simp add: foldl_add_sum comp_def)
  have "logprobsToProbs lps =
     foldl (\<lambda>probs e. Map_set (fst e) (snd e / (\<Sum>lp\<leftarrow>lps. exp (logprob lp - m))) probs) []
       (map (\<lambda>lp. (token lp, exp (logprob lp - m))) lps)"
    unfolding logprobsToProbs_def Let_def m_def [symmetric] Cons list.case
    using s unfolding Cons by simp
  also have "\<dots> = foldl (\<lambda>probs e. Map_set (fst e) (snd e) probs) []
       (map (\<lambda>a. (token a, exp (logprob a - m) / (\<Sum>lp\<leftarrow>lps. exp (logprob lp - m)))) lps)"
    by (simp add: foldl_map)
  finally show ?thesis by (simp add: softmax_shift)
qed

lemma set_foldl_Map_set_subset:
  "set (foldl (\<lambda>probs e. Map_set (fst e) (snd e) probs) m0 xs) \<subseteq> set m0 \<union> set xs"
proof (induction xs arbitrary: m0)
  case Nil
  then show ?case by simp
next
  case (Cons e xs)
  have "set (Map_set (fst e) (snd e) m0) \<subseteq> insert e (set m0)"
    by (induction m0) auto
  with Cons [of "Map_set (fst e) (snd e) m0"] show ?case by auto
qed

lemma softmax_sum_one:
  "lps \<noteq> [] \<Longrightarrow>
   sum_list (map snd (map (\<lambda>a. (token a, exp (logprob a) / (\<Sum>lp\<leftarrow>lps. exp (logprob lp)))) lps)) = (1::real)"
proof -
  assume "lps \<noteq> []"
  from sum_exp_pos [OF this, of 0] have z: "0 < (\<Sum>lp\<leftarrow>lps. exp (logprob lp))" by simp
  have "sum_list (map snd (map (\<lambda>a. (token a, exp (logprob a) / (\<Sum>lp\<leftarrow>lps. exp (logprob lp)))) lps))
        = (\<Sum>a\<leftarrow>lps. exp (logprob a) / (\<Sum>lp\<leftarrow>lps. exp (logprob lp)))"
    by (simp add: comp_def)
  also have "\<dots> = (\<Sum>a\<leftarrow>lps. exp (logprob a)) / (\<Sum>lp\<leftarrow>lps. exp (logprob lp))"
    by (rule sum_list_divide)
  also have "\<dots> = 1" using z by simp
  finally show ?thesis .
qed

lemma softmax_entry_range:
  assumes "a \<in> set lps"
  shows "0 < exp (logprob a) / (\<Sum>lp\<leftarrow>lps. exp (logprob lp))"
    and "exp (logprob a) / (\<Sum>lp\<leftarrow>lps. exp (logprob lp)) \<le> 1"
proof -
  have "lps \<noteq> []" using assms by auto
  from sum_exp_pos [OF this, of 0] have z: "0 < (\<Sum>lp\<leftarrow>lps. exp (logprob lp))" by simp
  from exp_le_sum_exp [OF assms, of 0] have le: "exp (logprob a) \<le> (\<Sum>lp\<leftarrow>lps. exp (logprob lp))" by simp
  show "0 < exp (logprob a) / (\<Sum>lp\<leftarrow>lps. exp (logprob lp))" using z by simp
  show "exp (logprob a) / (\<Sum>lp\<leftarrow>lps. exp (logprob lp)) \<le> 1" using z le by simp
qed

lemma logprobsToProbs_values_range:
  assumes "p \<in> set (Map_values (logprobsToProbs lps))"
  shows "0 < p \<and> p \<le> 1"
proof -
  from assms obtain k where "(k, p) \<in> set (logprobsToProbs lps)"
    by (auto simp: Map_values_def)
  then have "(k, p) \<in> set (map (\<lambda>a. (token a, exp (logprob a) / (\<Sum>lp\<leftarrow>lps. exp (logprob lp)))) lps)"
    using set_foldl_Map_set_subset [of "[]" "map (\<lambda>a. (token a, exp (logprob a) / (\<Sum>lp\<leftarrow>lps. exp (logprob lp)))) lps"]
    unfolding logprobsToProbs_softmax [of lps] by auto
  then obtain a where "a \<in> set lps" "p = exp (logprob a) / (\<Sum>lp\<leftarrow>lps. exp (logprob lp))"
    by auto
  then show ?thesis using softmax_entry_range [of a lps] by simp
qed

lemma logprobsToProbs_distinct:
  assumes "distinct (map token lps)"
  shows "logprobsToProbs lps = map (\<lambda>a. (token a, exp (logprob a) / (\<Sum>lp\<leftarrow>lps. exp (logprob lp)))) lps"
proof -
  have "distinct (map fst ([] @ map (\<lambda>a. (token a, exp (logprob a) / (\<Sum>lp\<leftarrow>lps. exp (logprob lp)))) lps))"
    using assms by (simp add: comp_def)
  from foldl_Map_set_append [OF this] show ?thesis
    by (simp add: logprobsToProbs_softmax [of lps])
qed

text \<open>
  C1. With numbers read as reals: every probability returned lies in \<open>[0, 1]\<close>, and
  the empty list gives the empty Map. For every list of logprobs that is not empty and
  whose tokens are pairwise distinct, the probabilities returned sum to exactly 1 (so
  within \<open>1e-9\<close> of 1), and for any two entries the order of their probabilities is
  the order of their logprobs.
\<close>

theorem logprobsToProbs_distribution:
  "(\<forall>p\<in>set (Map_values (logprobsToProbs lps)). 0 \<le> p \<and> p \<le> 1) \<and>
   logprobsToProbs [] = [] \<and>
   (lps \<noteq> [] \<and> distinct (map token lps) \<longrightarrow>
      sum_list (Map_values (logprobsToProbs lps)) = 1 \<and>
      \<bar>sum_list (Map_values (logprobsToProbs lps)) - 1\<bar> \<le> 1 / 10 ^ 9 \<and>
      (\<forall>a\<in>set lps. \<forall>b\<in>set lps. \<exists>pa pb.
         Map_get (logprobsToProbs lps) (token a) = Some pa \<and>
         Map_get (logprobsToProbs lps) (token b) = Some pb \<and>
         (logprob a \<le> logprob b \<longleftrightarrow> pa \<le> pb) \<and> (logprob a < logprob b \<longleftrightarrow> pa < pb)))"
proof (intro conjI impI; (elim conjE)?)
  show "\<forall>p\<in>set (Map_values (logprobsToProbs lps)). 0 \<le> p \<and> p \<le> 1"
    using logprobsToProbs_values_range [of _ lps] by (auto intro: less_imp_le)
  show "logprobsToProbs [] = []" by (simp add: logprobsToProbs_def)
next
  let ?Z = "\<Sum>lp\<leftarrow>lps. exp (logprob lp)"
  assume ne: "lps \<noteq> []" and dist: "distinct (map token lps)"
  note eq = logprobsToProbs_distinct [OF dist]
  have z: "0 < ?Z" using sum_exp_pos [OF ne, of 0] by simp
  show 1: "sum_list (Map_values (logprobsToProbs lps)) = 1"
    unfolding Map_values_def eq by (rule softmax_sum_one [OF ne])
  then show "\<bar>sum_list (Map_values (logprobsToProbs lps)) - 1\<bar> \<le> 1 / 10 ^ 9"
    by simp
  have d: "distinct (map fst (logprobsToProbs lps))"
    using dist by (simp add: eq comp_def)
  have g: "Map_get (logprobsToProbs lps) (token a) = Some (exp (logprob a) / ?Z)" if "a \<in> set lps" for a
  proof -
    have "(token a, exp (logprob a) / ?Z) \<in> set (logprobsToProbs lps)"
      using that by (simp add: eq image_iff) blast
    from Map_get_distinct_mem [OF d this] show ?thesis by simp
  qed
  have "\<exists>pa pb. Map_get (logprobsToProbs lps) (token a) = Some pa \<and>
        Map_get (logprobsToProbs lps) (token b) = Some pb \<and>
        (logprob a \<le> logprob b \<longleftrightarrow> pa \<le> pb) \<and> (logprob a < logprob b \<longleftrightarrow> pa < pb)"
    if "a \<in> set lps" "b \<in> set lps" for a b
    using g [OF that(1)] g [OF that(2)] z
    by (simp add: divide_le_cancel divide_less_cancel)
  then show "\<forall>a\<in>set lps. \<forall>b\<in>set lps. \<exists>pa pb.
         Map_get (logprobsToProbs lps) (token a) = Some pa \<and>
         Map_get (logprobsToProbs lps) (token b) = Some pb \<and>
         (logprob a \<le> logprob b \<longleftrightarrow> pa \<le> pb) \<and> (logprob a < logprob b \<longleftrightarrow> pa < pb)"
    by blast
qed

theorem logprobsToProbs_distribution_witness:
  "[\<lparr>token = js ''a'', logprob = ln (1 / 4)\<rparr>, \<lparr>token = js ''b'', logprob = ln (3 / 4)\<rparr>] \<noteq> [] \<and>
   distinct (map token [\<lparr>token = js ''a'', logprob = ln (1 / 4)\<rparr>, \<lparr>token = js ''b'', logprob = ln (3 / 4)\<rparr>]) \<and>
   logprobsToProbs [\<lparr>token = js ''a'', logprob = ln (1 / 4)\<rparr>, \<lparr>token = js ''b'', logprob = ln (3 / 4)\<rparr>]
     = [(js ''a'', 1 / 4), (js ''b'', 3 / 4)] \<and>
   sum_list (Map_values (logprobsToProbs
      [\<lparr>token = js ''a'', logprob = ln (1 / 4)\<rparr>, \<lparr>token = js ''b'', logprob = ln (3 / 4)\<rparr>])) = 1"
  using logprobsToProbs_distribution
    [of "[\<lparr>token = js ''a'', logprob = ln (1 / 4)\<rparr>, \<lparr>token = js ''b'', logprob = ln (3 / 4)\<rparr>]"]
  by (simp add: logprobsToProbs_softmax js_def)

text \<open>
  Without distinct tokens the sum is not 1: two entries for the same token with logprob 0
  give a Map with one entry of probability \<open>1 / 2\<close>.
\<close>

theorem logprobsToProbs_duplicates_sum_half:
  "\<not> \<bar>sum_list (Map_values (logprobsToProbs
        [\<lparr>token = js ''a'', logprob = 0\<rparr>, \<lparr>token = js ''a'', logprob = 0\<rparr>])) - 1\<bar> \<le> 1 / 10 ^ 9"
  by (simp add: logprobsToProbs_def Map_values_def)

lemma softmax_entries_pos:
  "\<forall>e\<in>set (map (\<lambda>a. (token a, exp (logprob a) / (\<Sum>lp\<leftarrow>lps. exp (logprob lp)))) lps). 0 < snd e"
  using softmax_entry_range(1) by auto

text \<open>
  C10. The Map returned has exactly one entry per distinct token of the input. The entry
  of a token holds the weight of the token's last occurrence, \<open>exp\<close> of its logprob
  divided by the sum of \<open>exp\<close> of the logprobs of all entries of the input, the earlier
  occurrences of the token included. So for an input that is not empty the values sum to
  1 exactly when the tokens are pairwise distinct, and with a duplicate they sum to
  strictly less than 1.
\<close>

theorem logprobsToProbs_duplicate_tokens:
  "distinct (Map_keys (logprobsToProbs lps)) \<and>
   set (Map_keys (logprobsToProbs lps)) = token ` set lps \<and>
   (\<forall>xs x ys. lps = xs @ x # ys \<and> token x \<notin> token ` set ys \<longrightarrow>
      Map_get (logprobsToProbs lps) (token x) = Some (exp (logprob x) / (\<Sum>lp\<leftarrow>lps. exp (logprob lp)))) \<and>
   (lps \<noteq> [] \<longrightarrow> (sum_list (Map_values (logprobsToProbs lps)) = 1 \<longleftrightarrow> distinct (map token lps))) \<and>
   (\<not> distinct (map token lps) \<longrightarrow> sum_list (Map_values (logprobsToProbs lps)) < 1)"
proof -
  let ?Z = "\<Sum>lp\<leftarrow>lps. exp (logprob lp)"
  let ?W = "map (\<lambda>a. (token a, exp (logprob a) / ?Z)) lps"
  note eq = logprobsToProbs_softmax [of lps]
  have 1: "distinct (Map_keys (logprobsToProbs lps))"
    unfolding Map_keys_def eq by (rule foldl_Map_set_distinct) simp
  have 2: "set (Map_keys (logprobsToProbs lps)) = token ` set lps"
    unfolding Map_keys_def eq by (simp add: foldl_Map_set_keys image_image)
  have 3: "Map_get (logprobsToProbs lps) (token x) = Some (exp (logprob x) / ?Z)"
    if "lps = xs @ x # ys" "token x \<notin> token ` set ys" for xs x ys
  proof -
    have w: "?W = map (\<lambda>a. (token a, exp (logprob a) / ?Z)) xs
                @ (token x, exp (logprob x) / ?Z) # map (\<lambda>a. (token a, exp (logprob a) / ?Z)) ys"
      using that(1) by (metis (no_types, lifting) list.simps(9) map_append)
    have "token x \<notin> fst ` set (map (\<lambda>a. (token a, exp (logprob a) / ?Z)) ys)"
      using that(2) by (simp add: image_image)
    from foldl_Map_set_get_last [OF this] show ?thesis
      unfolding eq w by simp
  qed
  have less: "sum_list (Map_values (logprobsToProbs lps)) < 1" if nd: "\<not> distinct (map token lps)"
  proof -
    have ne: "lps \<noteq> []" using nd by auto
    have "\<not> distinct (map fst ([] @ ?W))" using nd by (simp add: comp_def)
    from sum_foldl_Map_set_less [OF _ softmax_entries_pos _ this]
    have "sum_list (map snd (logprobsToProbs lps)) < sum_list (map snd ?W)"
      unfolding eq by simp
    then show ?thesis using softmax_sum_one [OF ne] by (simp add: Map_values_def)
  qed
  have 4: "sum_list (Map_values (logprobsToProbs lps)) = 1 \<longleftrightarrow> distinct (map token lps)" if ne: "lps \<noteq> []"
  proof
    assume "sum_list (Map_values (logprobsToProbs lps)) = 1"
    then show "distinct (map token lps)" using less by force
  next
    assume d: "distinct (map token lps)"
    show "sum_list (Map_values (logprobsToProbs lps)) = 1"
      unfolding Map_values_def logprobsToProbs_distinct [OF d] by (rule softmax_sum_one [OF ne])
  qed
  from 1 2 3 4 less show ?thesis by blast
qed

theorem logprobsToProbs_duplicate_tokens_witness:
  "[\<lparr>token = js ''a'', logprob = ln (1 / 4)\<rparr>, \<lparr>token = js ''b'', logprob = ln (1 / 2)\<rparr>,
    \<lparr>token = js ''a'', logprob = ln (3 / 4)\<rparr>]
     = [\<lparr>token = js ''a'', logprob = ln (1 / 4)\<rparr>, \<lparr>token = js ''b'', logprob = ln (1 / 2)\<rparr>]
         @ \<lparr>token = js ''a'', logprob = ln (3 / 4)\<rparr> # [] \<and>
   token \<lparr>token = js ''a'', logprob = ln (3 / 4)\<rparr> \<notin> token ` set [] \<and>
   \<not> distinct (map token [\<lparr>token = js ''a'', logprob = ln (1 / 4)\<rparr>, \<lparr>token = js ''b'', logprob = ln (1 / 2)\<rparr>,
    \<lparr>token = js ''a'', logprob = ln (3 / 4)\<rparr>]) \<and>
   logprobsToProbs [\<lparr>token = js ''a'', logprob = ln (1 / 4)\<rparr>, \<lparr>token = js ''b'', logprob = ln (1 / 2)\<rparr>,
    \<lparr>token = js ''a'', logprob = ln (3 / 4)\<rparr>] = [(js ''a'', 1 / 2), (js ''b'', 1 / 3)] \<and>
   sum_list (Map_values (logprobsToProbs [\<lparr>token = js ''a'', logprob = ln (1 / 4)\<rparr>,
    \<lparr>token = js ''b'', logprob = ln (1 / 2)\<rparr>, \<lparr>token = js ''a'', logprob = ln (3 / 4)\<rparr>])) < 1"
  using logprobsToProbs_duplicate_tokens
    [of "[\<lparr>token = js ''a'', logprob = ln (1 / 4)\<rparr>, \<lparr>token = js ''b'', logprob = ln (1 / 2)\<rparr>,
          \<lparr>token = js ''a'', logprob = ln (3 / 4)\<rparr>]"]
  by (simp add: logprobsToProbs_softmax js_def Map_values_def)

section \<open>Entropy\<close>

lemma entropy_fold:
  "foldl (\<lambda>entropy p. if p > 0 then entropy - p * log 2 p else entropy) a ps
     = a + sum_list (map (\<lambda>p. if p > 0 then - (p * log 2 p) else 0) ps)"
  by (induction ps arbitrary: a) simp_all

lemma calculateEntropy_sum:
  "calculateEntropy probs = (\<Sum>p\<leftarrow>Map_values probs. if p > 0 then - (p * log 2 p) else 0)"
  by (simp add: calculateEntropy_def entropy_fold)

lemma entropy_term_nonneg:
  "0 \<le> p \<Longrightarrow> p \<le> 1 \<Longrightarrow> 0 \<le> (if p > 0 then - (p * log 2 p) else (0::real))"
proof -
  assume "0 \<le> p" "p \<le> 1"
  have "p * log 2 p \<le> 0" if "0 < p"
  proof -
    have "log 2 p \<le> 0" using that \<open>p \<le> 1\<close> by simp
    then show ?thesis using that by (simp add: mult_le_0_iff)
  qed
  then show ?thesis by simp
qed

lemma entropy_term_zero_iff:
  assumes "0 \<le> p" "p \<le> 1"
  shows "(if p > 0 then - (p * log 2 p) else (0::real)) = 0 \<longleftrightarrow> p = 0 \<or> p = 1"
  using assms by (auto simp: log_def)

lemma entropy_term_upper:
  assumes "0 \<le> p" and "0 < n"
  shows "(if p > 0 then - (p * log 2 p) else (0::real)) \<le> p * log 2 n + (1 / n - p) / ln 2"
proof (cases "p > 0")
  case False
  then have "p = 0" using assms by simp
  then show ?thesis using assms by simp
next
  case True
  have l2: "0 < ln (2::real)" by simp
  have "ln (1 / (n * p)) \<le> 1 / (n * p) - 1"
    by (rule ln_le_minus_one) (use True assms in simp)
  then have "p * ln (1 / (n * p)) \<le> p * (1 / (n * p) - 1)"
    using True by (simp add: mult_le_cancel_left_pos)
  also have "\<dots> = 1 / n - p"
    using True assms by (simp add: field_simps)
  finally have a: "p * ln (1 / (n * p)) \<le> 1 / n - p" .
  have "ln (1 / (n * p)) = - ln n - ln p"
    using True assms by (simp add: ln_div ln_mult)
  with a have "- (p * ln p) - p * ln n \<le> 1 / n - p"
    by (simp add: algebra_simps)
  then have "(- (p * ln p) - p * ln n) / ln 2 \<le> (1 / n - p) / ln 2"
    using l2 by (simp add: divide_le_cancel)
  then have "- (p * log 2 p) - p * log 2 n \<le> (1 / n - p) / ln 2"
    by (simp add: log_def diff_divide_distrib)
  then show ?thesis using True by simp
qed

lemma sum_upper_terms:
  "(\<Sum>p\<leftarrow>ps. p * c + (d - p) / e) = c * sum_list ps + (real (length ps) * d - sum_list ps) / (e::real)"
  by (induction ps) (simp_all add: algebra_simps add_divide_distrib diff_divide_distrib)

lemma sum_list_const_on:
  "\<forall>p\<in>set ps. p = c \<Longrightarrow> sum_list (map f ps) = real (length ps) * (f c :: real)"
  by (induction ps) (simp_all add: algebra_simps)

lemma sum_list_all_zero:
  "\<forall>p\<in>set ps. f p = (0::real) \<Longrightarrow> sum_list (map f ps) = 0"
  by (induction ps) simp_all

lemma nonneg_sum_zero_all_zero:
  "\<forall>p\<in>set ps. (0::real) \<le> p \<Longrightarrow> sum_list ps = 0 \<Longrightarrow> \<forall>p\<in>set ps. p = 0"
  by (simp add: sum_list_nonneg_eq_0_iff)

text \<open>
  C5. With numbers read as reals: for every distribution over \<open>n\<close> tokens (the values
  of the Map lie in \<open>[0, 1]\<close> and sum to 1), the entropy lies between 0 and
  \<open>log 2 n\<close>; it is 0 exactly when the distribution is a point mass (one token has
  probability 1 and every other token probability 0); and on the uniform distribution
  (every value is \<open>1 / n\<close>) it is \<open>log 2 n\<close>.
\<close>

theorem calculateEntropy_bounds:
  assumes "\<forall>p\<in>set (Map_values probs). 0 \<le> p \<and> p \<le> 1"
    and "sum_list (Map_values probs) = 1"
  shows "0 \<le> calculateEntropy probs \<and>
     calculateEntropy probs \<le> log 2 (real (length probs)) \<and>
     (calculateEntropy probs = 0 \<longleftrightarrow>
        (\<exists>xs k ys. probs = xs @ (k, 1) # ys \<and> (\<forall>e\<in>set xs \<union> set ys. snd e = 0))) \<and>
     ((\<forall>p\<in>set (Map_values probs). p = 1 / real (length probs)) \<longrightarrow>
        calculateEntropy probs = log 2 (real (length probs)))"
proof -
  let ?ps = "Map_values probs"
  let ?n = "real (length probs)"
  define h where "h = (\<lambda>p::real. if p > 0 then - (p * log 2 p) else 0)"
  have len: "length ?ps = length probs" by (simp add: Map_values_def)
  have ne: "probs \<noteq> []" using assms(2) by (auto simp: Map_values_def)
  then have n: "0 < ?n" by simp
  have H: "calculateEntropy probs = sum_list (map h ?ps)"
    unfolding h_def by (rule calculateEntropy_sum)
  have h_nonneg: "0 \<le> h p" if "p \<in> set ?ps" for p
    unfolding h_def using assms(1) that by (intro entropy_term_nonneg) auto
  have h_zero: "h p = 0 \<longleftrightarrow> p = 0 \<or> p = 1" if "p \<in> set ?ps" for p
    unfolding h_def using assms(1) that by (intro entropy_term_zero_iff) auto
  have h_upper: "h p \<le> p * log 2 ?n + (1 / ?n - p) / ln 2" if "p \<in> set ?ps" for p
    unfolding h_def using assms(1) that n by (intro entropy_term_upper) auto
  have h0: "h 0 = 0" and h1: "h 1 = 0" by (simp_all add: h_def)
  have hn: "\<forall>x\<in>set (map h ?ps). 0 \<le> x"
    using h_nonneg by auto
  have 1: "0 \<le> calculateEntropy probs"
    unfolding H by (rule sum_list_nonneg) (use hn in blast)
  have "sum_list (map h ?ps) \<le> (\<Sum>p\<leftarrow>?ps. p * log 2 ?n + (1 / ?n - p) / ln 2)"
    by (rule sum_list_mono) (use h_upper in blast)
  also have "\<dots> = log 2 ?n * sum_list ?ps + (real (length ?ps) * (1 / ?n) - sum_list ?ps) / ln 2"
    by (rule sum_upper_terms)
  also have "\<dots> = log 2 ?n"
    using n by (simp add: assms(2) len)
  finally have 2: "calculateEntropy probs \<le> log 2 ?n" unfolding H .
  have 3: "calculateEntropy probs = 0 \<longleftrightarrow>
        (\<exists>xs k ys. probs = xs @ (k, 1) # ys \<and> (\<forall>e\<in>set xs \<union> set ys. snd e = 0))"
  proof
    assume "calculateEntropy probs = 0"
    then have "\<forall>x\<in>set (map h ?ps). x = 0"
      using hn unfolding H by (simp only: sum_list_nonneg_eq_0_iff)
    then have z: "\<forall>p\<in>set ?ps. p = 0 \<or> p = 1"
      using h_zero by simp
    have "\<exists>p\<in>set ?ps. p = 1"
    proof (rule ccontr)
      assume "\<not> (\<exists>p\<in>set ?ps. p = 1)"
      with z have "\<forall>p\<in>set ?ps. p = 0" by blast
      then have "sum_list ?ps = 0" using sum_list_all_zero [of ?ps "\<lambda>p. p"] by simp
      with assms(2) show False by simp
    qed
    then obtain e where e: "e \<in> set probs" "snd e = 1" by (auto simp: Map_values_def)
    then obtain xs ys where sp: "probs = xs @ e # ys" by (meson split_list)
    have "sum_list (map snd xs) + sum_list (map snd ys) = 0"
      using assms(2) e(2) by (simp add: sp Map_values_def)
    moreover have "\<forall>p\<in>set (map snd xs @ map snd ys). 0 \<le> p"
      using assms(1) by (auto simp: sp Map_values_def)
    ultimately have "\<forall>p\<in>set (map snd xs @ map snd ys). p = 0"
      using nonneg_sum_zero_all_zero [of "map snd xs @ map snd ys"] by simp
    then have "\<forall>e\<in>set xs \<union> set ys. snd e = 0" by auto
    moreover have "probs = xs @ (fst e, 1) # ys" using sp e(2) by (metis prod.collapse)
    ultimately show "\<exists>xs k ys. probs = xs @ (k, 1) # ys \<and> (\<forall>e\<in>set xs \<union> set ys. snd e = 0)"
      by blast
  next
    assume "\<exists>xs k ys. probs = xs @ (k, 1) # ys \<and> (\<forall>e\<in>set xs \<union> set ys. snd e = 0)"
    then obtain xs k ys where sp: "probs = xs @ (k, 1) # ys" and z: "\<forall>e\<in>set xs \<union> set ys. snd e = 0"
      by blast
    have "\<forall>p\<in>set ?ps. h p = 0"
      using z h0 h1 by (auto simp: sp Map_values_def)
    then have "sum_list (map h ?ps) = 0"
      by (rule sum_list_all_zero)
    then show "calculateEntropy probs = 0" unfolding H .
  qed
  have 4: "calculateEntropy probs = log 2 ?n" if u: "\<forall>p\<in>set ?ps. p = 1 / ?n"
  proof -
    have "sum_list (map h ?ps) = real (length ?ps) * h (1 / ?n)"
      using u by (rule sum_list_const_on)
    also have "\<dots> = ?n * (- ((1 / ?n) * log 2 (1 / ?n)))"
      using n by (simp add: len h_def)
    also have "\<dots> = - log 2 (1 / ?n)"
      using n by simp
    also have "\<dots> = log 2 ?n"
      using n by (simp add: log_divide)
    finally show ?thesis unfolding H .
  qed
  from 1 2 3 4 show ?thesis by blast
qed

theorem calculateEntropy_bounds_witness:
  "sum_list (Map_values [(js ''a'', 1 / 2 :: real), (js ''b'', 1 / 2)]) = 1 \<and>
   calculateEntropy [(js ''a'', 1 / 2), (js ''b'', 1 / 2)] = 1 \<and>
   log 2 (real (length [(js ''a'', 1 / 2 :: real), (js ''b'', 1 / 2)])) = 1 \<and>
   sum_list (Map_values [(js ''x'', 1 :: real), (js ''y'', 0)]) = 1 \<and>
   calculateEntropy [(js ''x'', 1), (js ''y'', 0)] = 0"
  using calculateEntropy_bounds [of "[(js ''a'', 1 / 2), (js ''b'', 1 / 2)]"]
    calculateEntropy_bounds [of "[(js ''x'', 1), (js ''y'', 0)]"]
  by (simp add: calculateEntropy_def Map_values_def log_divide)

section \<open>Margin\<close>

lemma sort_desc_props:
  "mset (sort_desc xs) = mset xs" "length (sort_desc xs) = length xs"
  "sorted (map (\<lambda>a. - logprob a) (sort_desc xs))"
  by (simp_all add: sort_desc_def)

lemma logprobsToProbs_pair:
  "logprobsToProbs [a, b] =
     (if token a = token b then [(token a, exp (logprob b) / (exp (logprob a) + exp (logprob b)))]
      else [(token a, exp (logprob a) / (exp (logprob a) + exp (logprob b))),
            (token b, exp (logprob b) / (exp (logprob a) + exp (logprob b)))])"
  by (simp add: logprobsToProbs_softmax)

lemma margin_pair_range:
  assumes "lb \<le> (la::real)"
  shows "0 \<le> exp la / (exp la + exp lb) - exp lb / (exp la + exp lb)"
    and "exp la / (exp la + exp lb) - exp lb / (exp la + exp lb) \<le> 1"
proof -
  have z: "0 < exp la + exp lb" by (simp add: add_pos_pos)
  have e: "exp la / (exp la + exp lb) - exp lb / (exp la + exp lb) = (exp la - exp lb) / (exp la + exp lb)"
    by (simp add: diff_divide_distrib)
  have "exp lb \<le> exp la" using assms by simp
  then show "0 \<le> exp la / (exp la + exp lb) - exp lb / (exp la + exp lb)"
    unfolding e using z by simp
  have "exp la - exp lb \<le> exp la + exp lb"
    using exp_gt_zero [of lb] by linarith
  then show "exp la / (exp la + exp lb) - exp lb / (exp la + exp lb) \<le> 1"
    unfolding e using z by simp
qed

text \<open>
  C6. On fewer than two entries the margin is 1. On two or more, let \<open>a\<close> and \<open>b\<close> be
  the first two entries of the list sorted by logprob, descending (a permutation of the
  input in which \<open>a\<close> has the largest logprob and \<open>b\<close> the largest of the rest). The
  margin is the difference of what the Map built by \<open>logprobsToProbs\<close> from only
  \<open>a\<close> and \<open>b\<close> holds for their tokens: \<open>p1 - p2\<close> with the two weights normalised
  over the pair when the tokens differ, and 0 when both carry the same token (both
  lookups then read the same entry). It lies in \<open>[0, 1]\<close>.
\<close>

theorem calculateMargin_spec:
  "(length xs < 2 \<longrightarrow> calculateMargin xs = 1) \<and>
   (2 \<le> length xs \<longrightarrow>
      (\<exists>a b rest. sort_desc xs = a # b # rest \<and> mset (a # b # rest) = mset xs \<and>
         logprob b \<le> logprob a \<and> (\<forall>r\<in>set rest. logprob r \<le> logprob b) \<and>
         calculateMargin xs =
           or_default (Map_get (logprobsToProbs [a, b]) (token a)) 0
             - or_default (Map_get (logprobsToProbs [a, b]) (token b)) 0 \<and>
         (token a \<noteq> token b \<longrightarrow>
            calculateMargin xs = exp (logprob a) / (exp (logprob a) + exp (logprob b))
                                - exp (logprob b) / (exp (logprob a) + exp (logprob b))) \<and>
         (token a = token b \<longrightarrow> calculateMargin xs = 0)) \<and>
      0 \<le> calculateMargin xs \<and> calculateMargin xs \<le> 1)"
proof (intro conjI impI)
  assume "length xs < 2"
  then show "calculateMargin xs = 1" by (simp add: calculateMargin_def)
next
  assume len: "2 \<le> length xs"
  then have "2 \<le> length (sort_desc xs)" by (simp add: sort_desc_props)
  then obtain a b rest where s: "sort_desc xs = a # b # rest"
    by (cases "sort_desc xs" rule: list.exhaust; cases "tl (sort_desc xs)") auto
  have srt: "logprob b \<le> logprob a" "\<forall>r\<in>set rest. logprob r \<le> logprob b"
    using sort_desc_props(3) [of xs] by (auto simp: s)
  have m: "calculateMargin xs =
           or_default (Map_get (logprobsToProbs [a, b]) (token a)) 0
             - or_default (Map_get (logprobsToProbs [a, b]) (token b)) 0"
    using len by (simp add: calculateMargin_def Let_def s)
  have pos: "exp (logprob a) / (exp (logprob a) + exp (logprob b)) \<noteq> 0"
       "exp (logprob b) / (exp (logprob a) + exp (logprob b)) \<noteq> 0"
    using add_pos_pos [OF exp_gt_zero [of "logprob a"] exp_gt_zero [of "logprob b"]] by simp_all
  have d: "calculateMargin xs = exp (logprob a) / (exp (logprob a) + exp (logprob b))
                                - exp (logprob b) / (exp (logprob a) + exp (logprob b))"
    if "token a \<noteq> token b"
    using that pos unfolding m logprobsToProbs_pair by (simp add: or_default_def)
  have e: "calculateMargin xs = 0" if "token a = token b"
    using that unfolding m logprobsToProbs_pair by (simp add: or_default_def)
  show "\<exists>a b rest. sort_desc xs = a # b # rest \<and> mset (a # b # rest) = mset xs \<and>
         logprob b \<le> logprob a \<and> (\<forall>r\<in>set rest. logprob r \<le> logprob b) \<and>
         calculateMargin xs =
           or_default (Map_get (logprobsToProbs [a, b]) (token a)) 0
             - or_default (Map_get (logprobsToProbs [a, b]) (token b)) 0 \<and>
         (token a \<noteq> token b \<longrightarrow>
            calculateMargin xs = exp (logprob a) / (exp (logprob a) + exp (logprob b))
                                - exp (logprob b) / (exp (logprob a) + exp (logprob b))) \<and>
         (token a = token b \<longrightarrow> calculateMargin xs = 0)"
    using s srt m d e sort_desc_props(1) [of xs] by (intro exI [of _ a] exI [of _ b] exI [of _ rest]) simp
  show "0 \<le> calculateMargin xs"
    using d e margin_pair_range(1) [OF srt(1)] by (cases "token a = token b") simp_all
  show "calculateMargin xs \<le> 1"
    using d e margin_pair_range(2) [OF srt(1)] by (cases "token a = token b") simp_all
qed

theorem calculateMargin_spec_witness:
  "length [\<lparr>token = js ''x'', logprob = - 0.05\<rparr>] < 2 \<and>
   calculateMargin [\<lparr>token = js ''x'', logprob = - 0.05\<rparr>] = 1 \<and>
   2 \<le> length [\<lparr>token = js ''b'', logprob = ln (1 / 4)\<rparr>, \<lparr>token = js ''c'', logprob = ln (1 / 8)\<rparr>,
                 \<lparr>token = js ''a'', logprob = ln (3 / 4)\<rparr>] \<and>
   sort_desc [\<lparr>token = js ''b'', logprob = ln (1 / 4)\<rparr>, \<lparr>token = js ''c'', logprob = ln (1 / 8)\<rparr>,
              \<lparr>token = js ''a'', logprob = ln (3 / 4)\<rparr>]
     = [\<lparr>token = js ''a'', logprob = ln (3 / 4)\<rparr>, \<lparr>token = js ''b'', logprob = ln (1 / 4)\<rparr>,
        \<lparr>token = js ''c'', logprob = ln (1 / 8)\<rparr>] \<and>
   calculateMargin [\<lparr>token = js ''b'', logprob = ln (1 / 4)\<rparr>, \<lparr>token = js ''c'', logprob = ln (1 / 8)\<rparr>,
                    \<lparr>token = js ''a'', logprob = ln (3 / 4)\<rparr>] = 1 / 2"
  using calculateMargin_spec [of "[\<lparr>token = js ''x'', logprob = - 0.05\<rparr>]"]
    calculateMargin_spec [of "[\<lparr>token = js ''b'', logprob = ln (1 / 4)\<rparr>, \<lparr>token = js ''c'', logprob = ln (1 / 8)\<rparr>,
                    \<lparr>token = js ''a'', logprob = ln (3 / 4)\<rparr>]"]
  by (simp add: calculateMargin_def sort_desc_def logprobsToProbs_softmax or_default_def js_def)

end
